theory Spec2Isabelle
  imports Main "HOL-Library.AList" "HOL-Library.Char_ord" "HOL-Library.List_Lexorder"
begin

section \<open>Documents, parsed URIs and errors\<close>

text \<open>
  A document is what a JSON or YAML loader hands to \<^verbatim>\<open>flattened_spec\<close>: mappings with
  string keys (a Python dict, kept as an association list in insertion order), sequences
  and scalars. Python's \<^verbatim>\<open>None\<close> is \<open>JNull\<close>. Floating-point scalars are left out: no
  operation of the module inspects a number.
\<close>

datatype json =
    JObj "(string \<times> json) list"
  | JArr "json list"
  | JStr string
  | JInt int
  | JBool bool
  | JNull

text \<open>
  \<^verbatim>\<open>urllib.parse.ParseResult\<close>: a named 6-tuple, compared component by component.
\<close>

datatype ParseResult =
  ParseResult (scheme: string) (netloc: string) (path: string)
              (params: string) (query: string) (fragment: string)

text \<open>
  The exceptions that can leave the module. Exhausting the interpreter's stack
  (\<^verbatim>\<open>RecursionError\<close>) is not a value of this type: the recursive descent takes a depth
  budget and answers \<open>None\<close> when the budget does not suffice.
\<close>

datatype error =
    ValueError string
  | TypeError string
  | AttributeError string
  | KeyError string
  | RefResolutionError string

section \<open>Strings and the library functions the marshaller calls\<close>

text \<open>\<^verbatim>\<open>s.startswith(p)\<close>, \<^verbatim>\<open>p in s\<close> for two strings, \<^verbatim>\<open>s.split(sep)\<close> and
  \<^verbatim>\<open>s.replace(src, dst)\<close> for a one-character \<^verbatim>\<open>sep\<close> and \<^verbatim>\<open>src\<close>, and \<^verbatim>\<open>sep.join(xs)\<close>.\<close>

definition startswith :: "string \<Rightarrow> string \<Rightarrow> bool" where
  "startswith s p = (take (length p) s = p)"

fun is_substring :: "string \<Rightarrow> string \<Rightarrow> bool" where
  "is_substring p [] = (p = [])"
| "is_substring p (c # cs) = (startswith (c # cs) p \<or> is_substring p cs)"

fun split_str :: "char \<Rightarrow> string \<Rightarrow> string list" where
  "split_str sep [] = [[]]"
| "split_str sep (c # cs) =
     (if c = sep then [] # split_str sep cs
      else (case split_str sep cs of
              [] \<Rightarrow> [[c]]
            | w # ws \<Rightarrow> (c # w) # ws))"

definition replace :: "char \<Rightarrow> string \<Rightarrow> string \<Rightarrow> string" where
  "replace src dst s = concat (map (\<lambda>c. if c = src then dst else [c]) s)"

fun join_str :: "string \<Rightarrow> string list \<Rightarrow> string" where
  "join_str sep [] = []"
| "join_str sep [x] = x"
| "join_str sep (x # y # ys) = x @ sep @ join_str sep (y # ys)"

text \<open>
  \<^verbatim>\<open>urllib.parse.urlunparse\<close> and \<^verbatim>\<open>urlunsplit\<close> of the standard library, as they read up
  to CPython 3.11 (and in Python 2.7):
  \<^verbatim>\<open>
  def urlunparse(components):
      scheme, netloc, url, params, query, fragment = components
      if params:
          url = "%s;%s" % (url, params)
      return urlunsplit((scheme, netloc, url, query, fragment))

  def urlunsplit(components):
      scheme, netloc, url, query, fragment = components
      if netloc or (scheme and scheme in uses_netloc and url[:2] != '//'):
          if url and url[:1] != '/': url = '/' + url
          url = '//' + (netloc or '') + url
      if scheme:
          url = scheme + ':' + url
      if query:
          url = url + '?' + query
      if fragment:
          url = url + '#' + fragment
      return url
  \<close>
\<close>

definition uses_netloc :: "string list" where
  "uses_netloc =
     ['''', ''ftp'', ''http'', ''gopher'', ''nntp'', ''telnet'', ''imap'', ''wais'',
      ''file'', ''mms'', ''https'', ''shttp'', ''snews'', ''prospero'', ''rtsp'',
      ''rtspu'', ''rsync'', ''svn'', ''svn+ssh'', ''sftp'', ''nfs'', ''git'',
      ''git+ssh'', ''ws'', ''wss'']"

definition urlunsplit :: "string \<Rightarrow> string \<Rightarrow> string \<Rightarrow> string \<Rightarrow> string \<Rightarrow> string" where
  "urlunsplit scheme' netloc' url query' fragment' =
     (let url1 = (if netloc' \<noteq> [] \<or>
                     (scheme' \<noteq> [] \<and> scheme' \<in> set uses_netloc \<and> take 2 url \<noteq> ''//'')
                  then ''//'' @ netloc' @
                       (if url \<noteq> [] \<and> take 1 url \<noteq> ''/'' then ''/'' @ url else url)
                  else url);
          url2 = (if scheme' \<noteq> [] then scheme' @ '':'' @ url1 else url1);
          url3 = (if query' \<noteq> [] then url2 @ ''?'' @ query' else url2)
      in (if fragment' \<noteq> [] then url3 @ ''#'' @ fragment' else url3))"

definition urlunparse :: "ParseResult \<Rightarrow> string" where
  "urlunparse u =
     urlunsplit (scheme u) (netloc u)
       (if params u \<noteq> [] then path u @ '';'' @ params u else path u)
       (query u) (fragment u)"

text \<open>
  \<^verbatim>\<open>os.path\<close> on a POSIX system (\<^verbatim>\<open>posixpath\<close>). \<^verbatim>\<open>abspath\<close> reads the process's working
  directory, which is the parameter \<open>cwd\<close> here.
  \<^verbatim>\<open>
  def dirname(p):
      i = p.rfind('/') + 1
      head = p[:i]
      if head and head != '/'*len(head):
          head = head.rstrip('/')
      return head

  def normpath(path):
      if path == '': return '.'
      initial_slashes = path.startswith('/')
      if (initial_slashes and
          path.startswith('//') and not path.startswith('///')):
          initial_slashes = 2
      comps = path.split('/')
      new_comps = []
      for comp in comps:
          if comp in ('', '.'): continue
          if (comp != '..' or (not initial_slashes and not new_comps) or
               (new_comps and new_comps[-1] == '..')):
              new_comps.append(comp)
          elif new_comps:
              new_comps.pop()
      path = '/'.join(new_comps)
      if initial_slashes:
          path = '/'*initial_slashes + path
      return path or '.'

  def abspath(path):
      if not path.startswith('/'):
          path = join(os.getcwd(), path)
      return normpath(path)

  def relpath(path, start):
      if not path:
          raise ValueError("no path specified")
      start_list = [x for x in abspath(start).split('/') if x]
      path_list = [x for x in abspath(path).split('/') if x]
      i = len(commonprefix([start_list, path_list]))
      rel_list = ['..'] * (len(start_list)-i) + path_list[i:]
      if not rel_list:
          return '.'
      return join(*rel_list)
  \<close>
\<close>

definition dirname :: "string \<Rightarrow> string" where
  "dirname p =
     (let head = rev (dropWhile (\<lambda>c. c \<noteq> CHR ''/'') (rev p))
      in if head \<noteq> [] \<and> \<not> list_all (\<lambda>c. c = CHR ''/'') head
         then rev (dropWhile (\<lambda>c. c = CHR ''/'') (rev head))
         else head)"

fun normpath_comps :: "nat \<Rightarrow> string list \<Rightarrow> string list \<Rightarrow> string list" where
  "normpath_comps initial_slashes new_comps [] = new_comps"
| "normpath_comps initial_slashes new_comps (part # comps) =
     (if part = [] \<or> part = ''.'' then normpath_comps initial_slashes new_comps comps
      else if part \<noteq> ''..'' \<or> (initial_slashes = 0 \<and> new_comps = []) \<or>
              (new_comps \<noteq> [] \<and> last new_comps = ''..'')
           then normpath_comps initial_slashes (new_comps @ [part]) comps
      else if new_comps \<noteq> [] then normpath_comps initial_slashes (butlast new_comps) comps
      else normpath_comps initial_slashes new_comps comps)"

definition normpath :: "string \<Rightarrow> string" where
  "normpath p =
     (if p = [] then ''.''
      else
        (let initial_slashes =
               (if startswith p ''/'' then
                  (if startswith p ''//'' \<and> \<not> startswith p ''///'' then 2 else 1)
                else 0);
             new_comps = normpath_comps initial_slashes [] (split_str CHR ''/'' p);
             p' = replicate initial_slashes CHR ''/'' @ join_str ''/'' new_comps
         in if p' = [] then ''.'' else p'))"

definition path_join :: "string \<Rightarrow> string \<Rightarrow> string" where
  "path_join a b =
     (if startswith b ''/'' then b
      else if a = [] \<or> last a = CHR ''/'' then a @ b
      else a @ ''/'' @ b)"

definition abspath :: "string \<Rightarrow> string \<Rightarrow> string" where
  "abspath cwd p = normpath (if \<not> startswith p ''/'' then path_join cwd p else p)"

fun commonprefix :: "string list \<Rightarrow> string list \<Rightarrow> string list" where
  "commonprefix (x # xs) (y # ys) = (if x = y then x # commonprefix xs ys else [])"
| "commonprefix _ _ = []"

definition relpath :: "string \<Rightarrow> string \<Rightarrow> string \<Rightarrow> error + string" where
  "relpath cwd p start =
     (if p = [] then Inl (ValueError ''no path specified'')
      else
        (let start_list = filter (\<lambda>x. x \<noteq> []) (split_str CHR ''/'' (abspath cwd start));
             path_list = filter (\<lambda>x. x \<noteq> []) (split_str CHR ''/'' (abspath cwd p));
             i = length (commonprefix start_list path_list);
             rel_list = replicate (length start_list - i) ''..'' @ drop i path_list
         in Inr (if rel_list = [] then ''.'' else join_str ''/'' rel_list)))"

section \<open>The URI marshaller\<close>

definition MARSHAL_REPLACEMENT_PATTERNS :: "(char \<times> string) list" where
  "MARSHAL_REPLACEMENT_PATTERNS = [(CHR ''/'', ''..''), (CHR ''#'', ''|'')]"

text \<open>
  \<^verbatim>\<open>_marshal_uri(target_uri, origin_uri)\<close>; \<open>origin_uri\<close> is \<open>None\<close> when the caller gave
  no \<^verbatim>\<open>spec_url\<close>. The first argument is the working directory \<^verbatim>\<open>os.path.relpath\<close>
  reads.
\<close>

definition marshal_uri :: "string \<Rightarrow> ParseResult \<Rightarrow> ParseResult option \<Rightarrow> error + string" where
  "marshal_uri cwd target_uri origin_uri =
     (let marshalled_target = urlunparse target_uri;
          target_uri1 =
            (if marshalled_target \<noteq> [] \<and> scheme target_uri = []
             then ParseResult ''file'' (netloc target_uri) (path target_uri)
                    (params target_uri) (query target_uri) (fragment target_uri)
             else target_uri);
          marshalled_target1 =
            (if marshalled_target \<noteq> [] \<and> scheme target_uri = []
             then urlunparse target_uri1 else marshalled_target)
      in if marshalled_target1 = [] \<or> scheme target_uri1 \<notin> {''file'', ''http'', ''https''}
         then Inl (ValueError (''Invalid target: '' @ [CHR 0x27] @ urlunparse target_uri1
                               @ [CHR 0x27]))
         else
           (case (if origin_uri \<noteq> None \<and> scheme target_uri1 = ''file''
                  then (case origin_uri of
                          None \<Rightarrow> Inr marshalled_target1
                        | Some origin \<Rightarrow>
                            (case relpath cwd (path target_uri1) (dirname (path origin)) of
                               Inl e \<Rightarrow> Inl e
                             | Inr rel \<Rightarrow>
                                 Inr (urlunparse
                                        (ParseResult ''lfile'' (netloc target_uri1) rel
                                           (params target_uri1) (query target_uri1)
                                           (fragment target_uri1)))))
                  else Inr marshalled_target1) of
              Inl e \<Rightarrow> Inl e
            | Inr marshalled_target2 \<Rightarrow>
                Inr (foldl (\<lambda>s (src, dst). replace src dst s) marshalled_target2
                       MARSHAL_REPLACEMENT_PATTERNS)))"

section \<open>The object type classifier\<close>

datatype object_type = TYPE_SCHEMA | TYPE_PATH_ITEM | TYPE_PARAMETER | TYPE_RESPONSE

definition TYPE_PROPERTY_HOLDER_MAPPING :: "(object_type \<times> string) list" where
  "TYPE_PROPERTY_HOLDER_MAPPING =
     [(TYPE_PARAMETER, ''parameters''), (TYPE_RESPONSE, ''responses''),
      (TYPE_SCHEMA, ''definitions'')]"

definition http_operations :: "string set" where
  "http_operations = {''get'', ''put'', ''post'', ''delete'', ''options'', ''head'', ''patch''}"

definition response_allowed_keys :: "string set" where
  "response_allowed_keys = {''description'', ''schema'', ''headers'', ''examples''}"

text \<open>
  \<^verbatim>\<open>_determine_object_type(object_dict)\<close>. The answer is \<open>Inr None\<close> where the Python
  function reaches its end without a \<^verbatim>\<open>return\<close>. The argument is whatever the resolver
  dereferenced, so the shapes other than a mapping are spelled out: \<^verbatim>\<open>'in' in x\<close> is a
  substring test on a string, a membership test on a list and a \<^verbatim>\<open>TypeError\<close> on the
  other scalars, and \<^verbatim>\<open>iterkeys\<close> raises \<^verbatim>\<open>AttributeError\<close> on anything but a mapping.
\<close>

definition classify_keys :: "string list \<Rightarrow> object_type option" where
  "classify_keys ks =
     (if ''in'' \<in> set ks \<and> ''name'' \<in> set ks then Some TYPE_PARAMETER
      else
        (let object_keys = set (filter (\<lambda>key. \<not> startswith key ''x-'') ks)
         in if object_keys \<inter> http_operations \<noteq> {} then
              (let remaining_keys = object_keys - http_operations
               in if remaining_keys = {} \<or> remaining_keys = {''parameters''}
                  then Some TYPE_PATH_ITEM
                  else None)
            else if ''description'' \<in> object_keys \<and> object_keys - response_allowed_keys = {}
                 then Some TYPE_RESPONSE
                 else Some TYPE_SCHEMA))"

fun determine_object_type :: "json \<Rightarrow> error + object_type option" where
  "determine_object_type (JObj kvs) = Inr (classify_keys (map fst kvs))"
| "determine_object_type (JStr s) =
     (if is_substring ''in'' s \<and> is_substring ''name'' s then Inr (Some TYPE_PARAMETER)
      else Inl (AttributeError ''keys''))"
| "determine_object_type (JArr xs) =
     (if JStr ''in'' \<in> set xs \<and> JStr ''name'' \<in> set xs then Inr (Some TYPE_PARAMETER)
      else Inl (AttributeError ''keys''))"
| "determine_object_type _ = Inl (TypeError ''argument is not iterable'')"

section \<open>Parsing a URI\<close>

text \<open>
  \<^verbatim>\<open>urllib.parse.urlparse\<close> of the standard library (CPython 3.8, without its result
  cache, its shortcut for the scheme \<^verbatim>\<open>http\<close> and the Unicode check of the host):
  \<^verbatim>\<open>
  def urlsplit(url):
      netloc = query = fragment = scheme = ''
      i = url.find(':')
      if i > 0:
          for c in url[:i]:
              if c not in scheme_chars: break
          else:
              rest = url[i+1:]
              if not rest or any(c not in '0123456789' for c in rest):
                  scheme, url = url[:i].lower(), rest
      if url[:2] == '//':
          netloc, url = _splitnetloc(url, 2)
          if (('[' in netloc and ']' not in netloc) or
                  (']' in netloc and '[' not in netloc)):
              raise ValueError("Invalid IPv6 URL")
      if '#' in url: url, fragment = url.split('#', 1)
      if '?' in url: url, query = url.split('?', 1)
      return SplitResult(scheme, netloc, url, query, fragment)

  def urlparse(url):
      scheme, netloc, url, query, fragment = urlsplit(url)
      if scheme in uses_params and ';' in url:
          url, params = _splitparams(url)
      else:
          params = ''
      return ParseResult(scheme, netloc, url, params, query, fragment)
  \<close>
\<close>

definition scheme_chars :: string where
  "scheme_chars =
     ''abcdefghijklmnopqrstuvwxyzABCDEFGHIJKLMNOPQRSTUVWXYZ0123456789+-.''"

definition uses_params :: "string list" where
  "uses_params =
     ['''', ''ftp'', ''hdl'', ''prospero'', ''http'', ''imap'', ''https'', ''shttp'',
      ''rtsp'', ''rtspu'', ''sip'', ''sips'', ''mms'', ''sftp'', ''tel'']"

definition lower :: "string \<Rightarrow> string" where
  "lower s =
     map (\<lambda>c. case map_of (zip ''ABCDEFGHIJKLMNOPQRSTUVWXYZ'' ''abcdefghijklmnopqrstuvwxyz'') c of
                None \<Rightarrow> c
              | Some l \<Rightarrow> l) s"

text \<open>\<^verbatim>\<open>s.split(c, 1)\<close> for a character that occurs in \<open>s\<close>: the text before its first
  occurrence and the text after it.\<close>

definition split_once :: "char \<Rightarrow> string \<Rightarrow> string \<times> string" where
  "split_once c s = (takeWhile (\<lambda>x. x \<noteq> c) s, drop 1 (dropWhile (\<lambda>x. x \<noteq> c) s))"

definition splitnetloc :: "string \<Rightarrow> string \<times> string" where
  "splitnetloc s =
     (takeWhile (\<lambda>x. x \<notin> set ''/?#'') s, dropWhile (\<lambda>x. x \<notin> set ''/?#'') s)"

definition splitparams :: "string \<Rightarrow> string \<times> string" where
  "splitparams url =
     (let last_part = rev (takeWhile (\<lambda>x. x \<noteq> CHR ''/'') (rev url));
          front = take (length url - length last_part) url
      in if CHR '';'' \<in> set last_part
         then (front @ takeWhile (\<lambda>x. x \<noteq> CHR '';'') last_part,
               drop 1 (dropWhile (\<lambda>x. x \<noteq> CHR '';'') last_part))
         else (url, []))"

definition urlparse :: "string \<Rightarrow> error + ParseResult" where
  "urlparse url =
     (let head = takeWhile (\<lambda>x. x \<noteq> CHR '':'') url;
          rest = drop (length head + 1) url;
          has_scheme =
            (CHR '':'' \<in> set url \<and> head \<noteq> [] \<and> list_all (\<lambda>c. c \<in> set scheme_chars) head \<and>
             (rest = [] \<or> \<not> list_all (\<lambda>c. c \<in> set ''0123456789'') rest));
          scheme' = (if has_scheme then lower head else []);
          url1 = (if has_scheme then rest else url);
          (netloc', url2) =
            (if take 2 url1 = ''//'' then splitnetloc (drop 2 url1) else ([], url1))
      in if (CHR ''['' \<in> set netloc' \<and> CHR '']'' \<notin> set netloc') \<or>
            (CHR '']'' \<in> set netloc' \<and> CHR ''['' \<notin> set netloc')
         then Inl (ValueError ''Invalid IPv6 URL'')
         else
           (let (url3, fragment') =
                  (if CHR ''#'' \<in> set url2 then split_once CHR ''#'' url2 else (url2, []));
                (url4, query') =
                  (if CHR ''?'' \<in> set url3 then split_once CHR ''?'' url3 else (url3, []));
                (url5, params') =
                  (if scheme' \<in> set uses_params \<and> CHR '';'' \<in> set url4
                   then splitparams url4 else (url4, []))
            in Inr (ParseResult scheme' netloc' url5 params' query' fragment')))"

section \<open>Documents as the flattening reads them\<close>

text \<open>
  Modelled from the spec: \<^verbatim>\<open>is_dict_like\<close>, \<^verbatim>\<open>is_list_like\<close> and \<^verbatim>\<open>is_ref\<close> of
  \<^verbatim>\<open>bravado_core.schema\<close> are imported by the module and not part of it. The spec's
  document node is a mapping, a sequence, a scalar or a reference; a reference is the
  mapping that carries the key \<^verbatim>\<open>$ref\<close>, which is what \<^verbatim>\<open>value['$ref']\<close> reads.
\<close>

fun is_dict_like :: "json \<Rightarrow> bool" where
  "is_dict_like (JObj kvs) = True"
| "is_dict_like _ = False"

fun is_list_like :: "json \<Rightarrow> bool" where
  "is_list_like (JArr xs) = True"
| "is_list_like _ = False"

fun is_ref :: "json \<Rightarrow> bool" where
  "is_ref (JObj kvs) = (''$ref'' \<in> fst ` set kvs)"
| "is_ref _ = False"

text \<open>\<^verbatim>\<open>value[key]\<close> on a document.\<close>

fun getitem :: "json \<Rightarrow> string \<Rightarrow> error + json" where
  "getitem (JObj kvs) key =
     (case map_of kvs key of None \<Rightarrow> Inl (KeyError key) | Some v \<Rightarrow> Inr v)"
| "getitem _ key = Inl (TypeError ''not subscriptable'')"

section \<open>The recursive descent\<close>

text \<open>
  \<^verbatim>\<open>known_mappings\<close>: for each of the three holder names the dict from parsed URI to the
  flattened object, as an association list in insertion order. The placeholder
  \<^verbatim>\<open>None\<close> is \<open>JNull\<close>.
\<close>

type_synonym known_mappings = "string \<Rightarrow> (ParseResult \<times> json) list"

text \<open>
  The reference resolver is the caller's (\<^verbatim>\<open>jsonschema.RefResolver\<close>). \<^verbatim>\<open>resolve\<close> reads
  the resolver's scope stack, which \<^verbatim>\<open>in_scope\<close> sets to \<^verbatim>\<open>[uri]\<close> for the body of the
  \<^verbatim>\<open>with\<close> block and restores afterwards; here the stack is an argument.
\<close>

type_synonym resolve_fn = "string list \<Rightarrow> json \<Rightarrow> error + string \<times> json"

text \<open>The comprehensions over the items of a dict and over a list: the elements are
  descended into from left to right, each call starting from the table the previous one
  left.\<close>

fun descend_each ::
  "(json \<Rightarrow> 'st \<Rightarrow> (error + json \<times> 'st) option) \<Rightarrow>
   json list \<Rightarrow> 'st \<Rightarrow> (error + json list \<times> 'st) option" where
  "descend_each f [] km = Some (Inr ([], km))"
| "descend_each f (x # xs) km =
     (case f x km of
        None \<Rightarrow> None
      | Some (Inl e) \<Rightarrow> Some (Inl e)
      | Some (Inr (y, km1)) \<Rightarrow>
          (case descend_each f xs km1 of
             None \<Rightarrow> None
           | Some (Inl e) \<Rightarrow> Some (Inl e)
           | Some (Inr (ys, km2)) \<Rightarrow> Some (Inr (y # ys, km2))))"

definition holder_key :: "object_type option \<Rightarrow> string" where
  "holder_key object_type =
     (case object_type of
        None \<Rightarrow> ''definitions''
      | Some t \<Rightarrow> (case map_of TYPE_PROPERTY_HOLDER_MAPPING t of
                    None \<Rightarrow> ''definitions''
                  | Some k \<Rightarrow> k))"

text \<open>The last statement of the reference branch:
  \<^verbatim>\<open>return {'$ref': '#/{}/{}'.format(mapping_key, marshal_uri(uri))}\<close>.\<close>

definition pointer ::
  "(ParseResult \<Rightarrow> error + string) \<Rightarrow> string \<Rightarrow> ParseResult \<Rightarrow> known_mappings \<Rightarrow>
   (error + json \<times> known_mappings) option" where
  "pointer marshal mapping_key uri km =
     (case marshal uri of
        Inl e \<Rightarrow> Some (Inl e)
      | Inr m \<Rightarrow> Some (Inr (JObj [(''$ref'', JStr (''#/'' @ mapping_key @ ''/'' @ m))], km)))"

text \<open>
  \<^verbatim>\<open>descend\<close>, the closure of \<^verbatim>\<open>flattened_spec\<close>, with what it closes over as arguments:
  the resolver's \<^verbatim>\<open>resolve\<close>, the partial application \<^verbatim>\<open>marshal_uri\<close> and the table
  \<^verbatim>\<open>known_mappings\<close>, which is returned updated. The first numeric argument bounds the
  depth of the recursion; \<open>None\<close> says that the bound was reached.
\<close>

primrec descend ::
  "resolve_fn \<Rightarrow> (ParseResult \<Rightarrow> error + string) \<Rightarrow> nat \<Rightarrow> string list \<Rightarrow> json \<Rightarrow>
   known_mappings \<Rightarrow> (error + json \<times> known_mappings) option" where
  "descend resolve marshal 0 scope val km = None"
| "descend resolve marshal (Suc n) scope val km =
     (if is_ref val then
        (case getitem val ''$ref'' of
           Inl e \<Rightarrow> Some (Inl e)
         | Inr ref \<Rightarrow>
        (case resolve scope ref of
           Inl e \<Rightarrow> Some (Inl e)
         | Inr (uri, deref_value) \<Rightarrow>
        (case determine_object_type deref_value of
           Inl e \<Rightarrow> Some (Inl e)
         | Inr object_type \<Rightarrow>
             if object_type = Some TYPE_PATH_ITEM
             then descend resolve marshal n [uri] deref_value km
             else
               (let mapping_key = holder_key object_type
                in case urlparse uri of
                     Inl e \<Rightarrow> Some (Inl e)
                   | Inr puri \<Rightarrow>
                       if puri \<notin> fst ` set (km mapping_key) then
                         (case descend resolve marshal n [uri] deref_value
                                 (km(mapping_key := AList.update puri JNull (km mapping_key))) of
                            None \<Rightarrow> None
                          | Some (Inl e) \<Rightarrow> Some (Inl e)
                          | Some (Inr (v, km1)) \<Rightarrow>
                              pointer marshal mapping_key puri
                                (km1(mapping_key := AList.update puri v (km1 mapping_key))))
                       else pointer marshal mapping_key puri km))))
      else
        (case val of
           JObj kvs \<Rightarrow>
             (case descend_each (descend resolve marshal n scope) (map snd kvs) km of
                None \<Rightarrow> None
              | Some (Inl e) \<Rightarrow> Some (Inl e)
              | Some (Inr (vs, km1)) \<Rightarrow> Some (Inr (JObj (zip (map fst kvs) vs), km1)))
         | JArr xs \<Rightarrow>
             (case descend_each (descend resolve marshal n scope) xs km of
                None \<Rightarrow> None
              | Some (Inl e) \<Rightarrow> Some (Inl e)
              | Some (Inr (vs, km1)) \<Rightarrow> Some (Inr (JArr vs, km1)))
         | _ \<Rightarrow> Some (Inr (val, km))))"

section \<open>The collision reporter\<close>

text \<open>
  \<^verbatim>\<open>marshaled_uri_mapping = defaultdict(set)\<close> filled by the first loop of
  \<^verbatim>\<open>_warn_if_uri_clash_on_same_marshaled_representation\<close>: an association list from
  marshalled key to the URIs that gave it, in the order the keys were first met. A set of
  URIs is a list without repetition; the only reading of it sorts its members.
\<close>

definition set_add :: "'a \<Rightarrow> 'a list \<Rightarrow> 'a list" where
  "set_add x xs = (if x \<in> set xs then xs else xs @ [x])"

fun group_uris ::
  "(ParseResult \<Rightarrow> error + string) \<Rightarrow> (string \<times> ParseResult list) list \<Rightarrow> ParseResult list \<Rightarrow>
   error + (string \<times> ParseResult list) list" where
  "group_uris marshal acc [] = Inr acc"
| "group_uris marshal acc (uri # uris) =
     (case marshal uri of
        Inl e \<Rightarrow> Inl e
      | Inr m \<Rightarrow>
          group_uris marshal
            (AList.update m (set_add uri (case map_of acc m of None \<Rightarrow> [] | Some us \<Rightarrow> us)) acc)
            uris)"

definition clash_message :: "string \<Rightarrow> ParseResult list \<Rightarrow> string" where
  "clash_message marshaled_uri uris =
     join_str '', '' (sort (map urlunparse uris)) @ '' clashed to '' @ marshaled_uri"

text \<open>The function answers the list of the messages it passes to \<^verbatim>\<open>warnings.warn\<close>, in
  the order of the calls.\<close>

definition warn_if_uri_clash_on_same_marshaled_representation ::
  "(ParseResult \<times> json) list \<Rightarrow> (ParseResult \<Rightarrow> error + string) \<Rightarrow> error + string list" where
  "warn_if_uri_clash_on_same_marshaled_representation uri_schema_mappings marshal =
     (case group_uris marshal [] (map fst uri_schema_mappings) of
        Inl e \<Rightarrow> Inl e
      | Inr marshaled_uri_mapping \<Rightarrow>
          Inr (if length marshaled_uri_mapping \<noteq> length uri_schema_mappings
               then map (\<lambda>(marshaled_uri, uris). clash_message marshaled_uri uris)
                      (filter (\<lambda>(marshaled_uri, uris). length uris > 1) marshaled_uri_mapping)
               else []))"

section \<open>The flattening\<close>

text \<open>The dict comprehension
  \<^verbatim>\<open>{marshal_uri(uri): value for uri, value in iteritems(mappings)}\<close>: a later item
  overwrites an earlier one with the same key.\<close>

fun marshal_keys ::
  "(ParseResult \<Rightarrow> error + string) \<Rightarrow> (string \<times> json) list \<Rightarrow> (ParseResult \<times> json) list \<Rightarrow>
   error + (string \<times> json) list" where
  "marshal_keys marshal acc [] = Inr acc"
| "marshal_keys marshal acc ((uri, v) # rest) =
     (case marshal uri of
        Inl e \<Rightarrow> Inl e
      | Inr m \<Rightarrow> marshal_keys marshal (AList.update m v acc) rest)"

text \<open>\<^verbatim>\<open>resolved_spec.update({key: value})\<close>: only a dict has the method.\<close>

fun dict_update :: "json \<Rightarrow> string \<Rightarrow> json \<Rightarrow> error + json" where
  "dict_update (JObj kvs) key v = Inr (JObj (AList.update key v kvs))"
| "dict_update _ key v = Inl (AttributeError ''update'')"

text \<open>The closing loop of \<^verbatim>\<open>flattened_spec\<close> over the items of \<^verbatim>\<open>known_mappings\<close>, with
  the warnings given so far.\<close>

fun attach_mappings ::
  "(ParseResult \<Rightarrow> error + string) \<Rightarrow> known_mappings \<Rightarrow> string list \<Rightarrow> json \<Rightarrow> string list \<Rightarrow>
   string list \<times> (error + json)" where
  "attach_mappings marshal km [] resolved_spec ws = (ws, Inr resolved_spec)"
| "attach_mappings marshal km (mapping_key # keys) resolved_spec ws =
     (case warn_if_uri_clash_on_same_marshaled_representation (km mapping_key) marshal of
        Inl e \<Rightarrow> (ws, Inl e)
      | Inr clashes \<Rightarrow>
          if length (km mapping_key) > 0 then
            (case marshal_keys marshal [] (km mapping_key) of
               Inl e \<Rightarrow> (ws @ clashes, Inl e)
             | Inr bucket \<Rightarrow>
                 (case dict_update resolved_spec mapping_key (JObj bucket) of
                    Inl e \<Rightarrow> (ws @ clashes, Inl e)
                  | Inr updated \<Rightarrow> attach_mappings marshal km keys updated (ws @ clashes)))
          else attach_mappings marshal km keys resolved_spec (ws @ clashes))"

text \<open>
  The resolver object: the scope stack it has when \<^verbatim>\<open>flattened_spec\<close> is entered and its
  method \<^verbatim>\<open>resolve\<close>.
\<close>

record RefResolver =
  scopes_stack :: "string list"
  resolver_resolve :: resolve_fn

definition origin_warning :: string where
  "origin_warning =
     ''It is recommended to set origin_url to your spec before flattering it. '' @
     ''Doing so internal paths will be hidden, reducing the amount of exposed information.''"

definition definitions_warning :: string where
  "definitions_warning =
     ''Un-referenced models cannot be un-flattened if spec_definitions is not present''"

text \<open>
  \<^verbatim>\<open>flattened_spec(spec_dict, spec_resolver, spec_url, http_handlers,
  marshal_uri_function)\<close>, called without \<^verbatim>\<open>spec_definitions\<close>: the branch that back-fills
  named models runs \<^verbatim>\<open>bravado_core.spec.Spec.from_dict\<close>, which is not part of the module,
  and is not entered. The constructor of \<^verbatim>\<open>jsonschema.RefResolver\<close>, already given
  \<^verbatim>\<open>http_handlers\<close>, is the argument \<open>new_resolver\<close>; the first argument bounds the
  depth of the descent. The answer is the list of warnings and the outcome, \<open>None\<close> when
  the depth did not suffice. A value has no identity here, so \<^verbatim>\<open>copy.deepcopy\<close> is the
  identity.
\<close>

definition flattened_spec ::
  "nat \<Rightarrow> (string \<Rightarrow> json \<Rightarrow> RefResolver) \<Rightarrow> json \<Rightarrow> RefResolver option \<Rightarrow> string option \<Rightarrow>
   (ParseResult \<Rightarrow> ParseResult option \<Rightarrow> error + string) \<Rightarrow>
   string list \<times> (error + json) option" where
  "flattened_spec depth new_resolver spec_dict spec_resolver spec_url marshal_uri_function =
     (let ws1 = (if spec_url = None then [origin_warning] else [])
      in case (case spec_resolver of
                 Some r \<Rightarrow> Inr r
               | None \<Rightarrow>
                   (case spec_url of
                      None \<Rightarrow> Inl (ValueError ''spec_resolver or spec_url should be defined'')
                    | Some u \<Rightarrow>
                        if u = []
                        then Inl (ValueError ''spec_resolver or spec_url should be defined'')
                        else Inr (new_resolver u spec_dict))) of
           Inl e \<Rightarrow> (ws1, Some (Inl e))
         | Inr resolver \<Rightarrow>
             (let ws2 = ws1 @ [definitions_warning]
              in case (case spec_url of
                         None \<Rightarrow> Inr None
                       | Some u \<Rightarrow>
                           if u = [] then Inr None
                           else (case urlparse u of Inl e \<Rightarrow> Inl e | Inr p \<Rightarrow> Inr (Some p))) of
                   Inl e \<Rightarrow> (ws2, Some (Inl e))
                 | Inr origin_uri \<Rightarrow>
                     (case descend (resolver_resolve resolver)
                             (\<lambda>uri. marshal_uri_function uri origin_uri) depth
                             (scopes_stack resolver) spec_dict (\<lambda>key. []) of
                        None \<Rightarrow> (ws2, None)
                      | Some (Inl e) \<Rightarrow> (ws2, Some (Inl e))
                      | Some (Inr (resolved_spec, known)) \<Rightarrow>
                          (case attach_mappings (\<lambda>uri. marshal_uri_function uri origin_uri)
                                  known (map snd TYPE_PROPERTY_HOLDER_MAPPING) resolved_spec ws2 of
                             (ws3, outcome) \<Rightarrow> (ws3, Some outcome)))))"

section \<open>A resolver for references into the root document\<close>

text \<open>
  What \<^verbatim>\<open>jsonschema.RefResolver(base_uri, referrer)\<close> does with a reference of the form
  \<^verbatim>\<open>#/a/b\<close>: the URL is the current scope without its fragment followed by the
  reference, and the value is found by walking the referrer along the pointer. The
  walk takes the parts literally (no percent or \<^verbatim>\<open>~\<close> escapes) and indexes a list by a
  decimal number. Every other reference, and a scope outside the root document, is
  reported unresolvable: this resolver fetches nothing.
\<close>

definition digit_value :: "char \<Rightarrow> nat option" where
  "digit_value c = map_of (zip ''0123456789'' [0, 1, 2, 3, 4, 5, 6, 7, 8, 9]) c"

fun decimal :: "nat \<Rightarrow> string \<Rightarrow> nat option" where
  "decimal acc [] = Some acc"
| "decimal acc (c # cs) =
     (case digit_value c of None \<Rightarrow> None | Some d \<Rightarrow> decimal (10 * acc + d) cs)"

fun resolve_fragment :: "json \<Rightarrow> string list \<Rightarrow> json option" where
  "resolve_fragment document [] = Some document"
| "resolve_fragment (JObj kvs) (part # parts) =
     (case map_of kvs part of
        None \<Rightarrow> None
      | Some v \<Rightarrow> resolve_fragment v parts)"
| "resolve_fragment (JArr xs) (part # parts) =
     (if part = [] then None
      else (case decimal 0 part of
              None \<Rightarrow> None
            | Some i \<Rightarrow> if i < length xs then resolve_fragment (xs ! i) parts else None))"
| "resolve_fragment _ (part # parts) = None"

definition root_resolve :: "string \<Rightarrow> json \<Rightarrow> resolve_fn" where
  "root_resolve base_uri referrer scope ref =
     (case ref of
        JStr r \<Rightarrow>
          (if scope \<noteq> [] \<and> takeWhile (\<lambda>c. c \<noteq> CHR ''#'') (last scope) = base_uri \<and>
              take 1 r = ''#''
           then
             (let pointer_text = dropWhile (\<lambda>c. c = CHR ''/'') (drop 1 r)
              in case resolve_fragment referrer
                        (if pointer_text = [] then [] else split_str CHR ''/'' pointer_text) of
                   None \<Rightarrow> Inl (RefResolutionError r)
                 | Some v \<Rightarrow> Inr (base_uri @ r, v))
           else Inl (RefResolutionError r))
      | _ \<Rightarrow> Inl (TypeError ''reference is not a string''))"

definition root_resolver :: "string \<Rightarrow> json \<Rightarrow> RefResolver" where
  "root_resolver base_uri referrer =
     \<lparr>scopes_stack = [base_uri], resolver_resolve = root_resolve base_uri referrer\<rparr>"

section \<open>The descent with a record of what it did\<close>

text \<open>
  To count how often the descent works on a location, \<open>descend_log\<close> is \<^verbatim>\<open>descend\<close> with
  one addition that the Python code does not have: beside the table it carries a list of
  events, to which it appends
  \<^item> \<open>Inlined uri\<close> when it takes the path item branch (line 272) for the URL \<open>uri\<close>,
  \<^item> \<open>Computed key uri\<close> when it stores the placeholder and starts to compute the value
    of the location (lines 280 to 282),
  \<^item> \<open>Pointed key uri target\<close> when it returns a reference with that target (line 284).
  The list is never read. Theorem \<open>descend_log_erase\<close> below shows that dropping it
  gives \<open>descend\<close>.
\<close>

datatype event =
    Inlined string
  | Computed string ParseResult
  | Pointed string ParseResult string

definition pointer_log ::
  "(ParseResult \<Rightarrow> error + string) \<Rightarrow> string \<Rightarrow> ParseResult \<Rightarrow> known_mappings \<times> event list \<Rightarrow>
   (error + json \<times> known_mappings \<times> event list) option" where
  "pointer_log marshal mapping_key uri st =
     (case marshal uri of
        Inl e \<Rightarrow> Some (Inl e)
      | Inr m \<Rightarrow>
          Some (Inr (JObj [(''$ref'', JStr (''#/'' @ mapping_key @ ''/'' @ m))],
                     (fst st, snd st @ [Pointed mapping_key uri (''#/'' @ mapping_key @ ''/'' @ m)]))))"

primrec descend_log ::
  "resolve_fn \<Rightarrow> (ParseResult \<Rightarrow> error + string) \<Rightarrow> nat \<Rightarrow> string list \<Rightarrow> json \<Rightarrow>
   known_mappings \<times> event list \<Rightarrow> (error + json \<times> known_mappings \<times> event list) option" where
  "descend_log resolve marshal 0 scope val st = None"
| "descend_log resolve marshal (Suc n) scope val st =
     (if is_ref val then
        (case getitem val ''$ref'' of
           Inl e \<Rightarrow> Some (Inl e)
         | Inr ref \<Rightarrow>
        (case resolve scope ref of
           Inl e \<Rightarrow> Some (Inl e)
         | Inr (uri, deref_value) \<Rightarrow>
        (case determine_object_type deref_value of
           Inl e \<Rightarrow> Some (Inl e)
         | Inr object_type \<Rightarrow>
             if object_type = Some TYPE_PATH_ITEM
             then descend_log resolve marshal n [uri] deref_value (fst st, snd st @ [Inlined uri])
             else
               (let mapping_key = holder_key object_type
                in case urlparse uri of
                     Inl e \<Rightarrow> Some (Inl e)
                   | Inr puri \<Rightarrow>
                       if puri \<notin> fst ` set (fst st mapping_key) then
                         (case descend_log resolve marshal n [uri] deref_value
                                 ((fst st)(mapping_key :=
                                             AList.update puri JNull (fst st mapping_key)),
                                  snd st @ [Computed mapping_key puri]) of
                            None \<Rightarrow> None
                          | Some (Inl e) \<Rightarrow> Some (Inl e)
                          | Some (Inr (v, st1)) \<Rightarrow>
                              pointer_log marshal mapping_key puri
                                ((fst st1)(mapping_key :=
                                             AList.update puri v (fst st1 mapping_key)),
                                 snd st1))
                       else pointer_log marshal mapping_key puri st))))
      else
        (case val of
           JObj kvs \<Rightarrow>
             (case descend_each (descend_log resolve marshal n scope) (map snd kvs) st of
                None \<Rightarrow> None
              | Some (Inl e) \<Rightarrow> Some (Inl e)
              | Some (Inr (vs, st1)) \<Rightarrow> Some (Inr (JObj (zip (map fst kvs) vs), st1)))
         | JArr xs \<Rightarrow>
             (case descend_each (descend_log resolve marshal n scope) xs st of
                None \<Rightarrow> None
              | Some (Inl e) \<Rightarrow> Some (Inl e)
              | Some (Inr (vs, st1)) \<Rightarrow> Some (Inr (JArr vs, st1)))
         | _ \<Rightarrow> Some (Inr (val, st))))"

text \<open>Dropping the list of events from an outcome of \<open>descend_log\<close>.\<close>

definition forget_log ::
  "(error + 'a \<times> known_mappings \<times> event list) option \<Rightarrow> (error + 'a \<times> known_mappings) option" where
  "forget_log r =
     (case r of
        None \<Rightarrow> None
      | Some (Inl e) \<Rightarrow> Some (Inl e)
      | Some (Inr (v, st)) \<Rightarrow> Some (Inr (v, fst st)))"

text \<open>What the events say about one holder: the locations computed for it, in order.\<close>

fun computed_in :: "string \<Rightarrow> event list \<Rightarrow> ParseResult list" where
  "computed_in k [] = []"
| "computed_in k (Computed k' L # es) = (if k' = k then L # computed_in k es else computed_in k es)"
| "computed_in k (e # es) = computed_in k es"

section \<open>Notions the statements below use\<close>

text \<open>The documents directly inside a document, and all documents inside it.\<close>

fun children :: "json \<Rightarrow> json list" where
  "children (JObj kvs) = map snd kvs"
| "children (JArr xs) = xs"
| "children _ = []"

fun subvalues :: "json \<Rightarrow> json list" where
  "subvalues (JObj kvs) = JObj kvs # concat (map (\<lambda>(k, v). subvalues v) kvs)"
| "subvalues (JArr xs) = JArr xs # concat (map subvalues xs)"
| "subvalues v = [v]"

text \<open>
  One step of the descent that leaves the table as it is: from a mapping or a list that
  is not a reference to one of its elements, under the same scope; and from a reference
  whose target is classified as a path item to that target, under the target's scope.
\<close>

definition inline_steps :: "resolve_fn \<Rightarrow> ((string list \<times> json) \<times> (string list \<times> json)) set" where
  "inline_steps resolve =
     {((scope, c), (scope, val)) | scope c val. \<not> is_ref val \<and> c \<in> set (children val)} \<union>
     {(([uri], d), (scope, val)) | uri d scope val ref.
        is_ref val \<and> getitem val ''$ref'' = Inr ref \<and> resolve scope ref = Inr (uri, d) \<and>
        determine_object_type d = Inr (Some TYPE_PATH_ITEM)}"


text \<open>
  The collision report in the words of the specification: the locations are grouped by
  their marshalled key, every group of more than one location gives one warning, which
  lists the canonical string form of the group's locations in lexicographic order and
  the key they share. \<open>key\<close> is the marshalling function where it returns.
\<close>

definition first_occurrences :: "'a list \<Rightarrow> 'a list" where
  "first_occurrences xs = rev (remdups (rev xs))"

definition clash_warnings :: "(ParseResult \<Rightarrow> string) \<Rightarrow> ParseResult list \<Rightarrow> string list" where
  "clash_warnings key uris =
     map (\<lambda>k. join_str '', '' (sort (map urlunparse (filter (\<lambda>u. key u = k) uris)))
                @ '' clashed to '' @ k)
       (filter (\<lambda>k. 1 < length (filter (\<lambda>u. key u = k) uris))
          (first_occurrences (map key uris)))"


fun depth :: "json \<Rightarrow> nat" where
  "depth (JObj kvs) = Suc (foldr (\<lambda>(k, v) m. max (depth v) m) kvs 0)"
| "depth (JArr xs) = Suc (foldr (\<lambda>v m. max (depth v) m) xs 0)"
| "depth _ = 1"

text \<open>
  What stands behind an event, given the resolver, the marshalling function and a table:
  an inlining comes from a resolution classified as a path item; a computation and a
  pointer come from a resolution classified otherwise, under the holder of that
  classification; and a pointer's target is \<^verbatim>\<open>#/holder/key\<close> with the marshalled key of
  its location, which has an entry in the holder's table.
\<close>

fun justified ::
  "resolve_fn \<Rightarrow> (ParseResult \<Rightarrow> error + string) \<Rightarrow> known_mappings \<Rightarrow> event \<Rightarrow> bool" where
  "justified resolve marshal km (Inlined uri) =
     (\<exists>scope ref d. resolve scope ref = Inr (uri, d) \<and>
        determine_object_type d = Inr (Some TYPE_PATH_ITEM))"
| "justified resolve marshal km (Computed k L) =
     (\<exists>scope ref uri d t. resolve scope ref = Inr (uri, d) \<and>
        determine_object_type d = Inr t \<and> t \<noteq> Some TYPE_PATH_ITEM \<and>
        urlparse uri = Inr L \<and> k = holder_key t)"
| "justified resolve marshal km (Pointed k L target) =
     ((\<exists>scope ref uri d t. resolve scope ref = Inr (uri, d) \<and>
         determine_object_type d = Inr t \<and> t \<noteq> Some TYPE_PATH_ITEM \<and>
         urlparse uri = Inr L \<and> k = holder_key t) \<and>
      (\<exists>m. marshal L = Inr m \<and> target = ''#/'' @ k @ ''/'' @ m) \<and>
      L \<in> fst ` set (km k))"

text \<open>
  How a run of \<open>descend_log\<close> relates the state it starts from to the state it ends in:
  events are appended, every one of them justified; and the keys of each holder's table
  are the old keys followed by the locations computed for the holder, in the order of
  the computations.
\<close>

definition log_extends ::
  "resolve_fn \<Rightarrow> (ParseResult \<Rightarrow> error + string) \<Rightarrow>
   known_mappings \<times> event list \<Rightarrow> known_mappings \<times> event list \<Rightarrow> bool" where
  "log_extends resolve marshal st st' \<longleftrightarrow>
     (\<exists>new. snd st' = snd st @ new \<and>
        (\<forall>k. map fst (fst st' k) = map fst (fst st k) @ computed_in k new) \<and>
        list_all (justified resolve marshal (fst st')) new)"

text \<open>The key a location is filed under: what the marshalling function returns for it
  (the empty string stands in where the function raises).\<close>

definition marshalled_key :: "(ParseResult \<Rightarrow> error + string) \<Rightarrow> ParseResult \<Rightarrow> string" where
  "marshalled_key marshal uri = (case marshal uri of Inl e \<Rightarrow> [] | Inr m \<Rightarrow> m)"

section \<open>Example documents\<close>

text \<open>The root document of the specification's end-to-end example, at
  \<^verbatim>\<open>file:///specs/a.json\<close>.\<close>

definition example_url :: string where
  "example_url = ''file:///specs/a.json''"

definition pet_document :: json where
  "pet_document =
     JObj [(''definitions'',
            JObj [(''Pet'', JObj [(''type'', JStr ''object'')]),
                  (''Ref'', JObj [(''$ref'', JStr ''#/definitions/Pet'')])])]"

text \<open>A path item that two references point to.\<close>

definition shared_path_item :: json where
  "shared_path_item =
     JObj [(''a'', JObj [(''$ref'', JStr ''#/p'')]),
           (''b'', JObj [(''$ref'', JStr ''#/p'')]),
           (''p'', JObj [(''get'', JObj [])])]"

text \<open>A schema that two references point to.\<close>

definition shared_schema :: json where
  "shared_schema =
     JObj [(''a'', JObj [(''$ref'', JStr ''#/d'')]),
           (''b'', JObj [(''$ref'', JStr ''#/d'')]),
           (''d'', JObj [(''type'', JStr ''object'')])]"

text \<open>A path item whose operation refers back to the path item, and a schema whose
  property refers back to the schema.\<close>

definition cyclic_path_item :: json where
  "cyclic_path_item = JObj [(''p'', JObj [(''get'', JObj [(''$ref'', JStr ''#/p'')])])]"

definition cyclic_schema :: json where
  "cyclic_schema =
     JObj [(''A'', JObj [(''type'', JStr ''object''),
                         (''next'', JObj [(''$ref'', JStr ''#/A'')])])]"

text \<open>Two schemas whose locations, \<^verbatim>\<open>#/x/y\<close> and \<^verbatim>\<open>#/x..y\<close>, get the same marshalled key.\<close>

definition clashing_schemas :: json where
  "clashing_schemas =
     JObj [(''x'', JObj [(''y'', JObj [(''type'', JStr ''string'')])]),
           (''x..y'', JObj [(''type'', JStr ''object'')]),
           (''a'', JObj [(''$ref'', JStr ''#/x/y'')]),
           (''b'', JObj [(''$ref'', JStr ''#/x..y'')])]"

section \<open>The cases of the descent\<close>

lemma pointer_Inr:
  "pointer marshal k L km = Some (Inr (v, km')) \<longleftrightarrow>
   (\<exists>m. marshal L = Inr m \<and> v = JObj [(''$ref'', JStr (''#/'' @ k @ ''/'' @ m))] \<and> km' = km)"
  by (auto simp: pointer_def split: sum.splits)

lemma pointer_not_None: "pointer marshal k L km \<noteq> None"
  by (simp add: pointer_def split: sum.splits)
lemma descend_Suc_Inr_cases:
  assumes "descend resolve marshal (Suc n) scope val km = Some (Inr (v', km'))"
  obtains
    (path_item) ref uri d where
      "is_ref val" "getitem val ''$ref'' = Inr ref" "resolve scope ref = Inr (uri, d)"
      "determine_object_type d = Inr (Some TYPE_PATH_ITEM)"
      "descend resolve marshal n [uri] d km = Some (Inr (v', km'))"
  | (known) ref uri d t L m where
      "is_ref val" "getitem val ''$ref'' = Inr ref" "resolve scope ref = Inr (uri, d)"
      "determine_object_type d = Inr t" "t \<noteq> Some TYPE_PATH_ITEM" "urlparse uri = Inr L"
      "L \<in> fst ` set (km (holder_key t))" "marshal L = Inr m"
      "v' = JObj [(''$ref'', JStr (''#/'' @ holder_key t @ ''/'' @ m))]" "km' = km"
  | (new) ref uri d t L m v km1 where
      "is_ref val" "getitem val ''$ref'' = Inr ref" "resolve scope ref = Inr (uri, d)"
      "determine_object_type d = Inr t" "t \<noteq> Some TYPE_PATH_ITEM" "urlparse uri = Inr L"
      "L \<notin> fst ` set (km (holder_key t))"
      "descend resolve marshal n [uri] d
         (km(holder_key t := AList.update L JNull (km (holder_key t)))) = Some (Inr (v, km1))"
      "marshal L = Inr m"
      "v' = JObj [(''$ref'', JStr (''#/'' @ holder_key t @ ''/'' @ m))]"
      "km' = km1(holder_key t := AList.update L v (km1 (holder_key t)))"
  | (obj) kvs vs where
      "val = JObj kvs" "\<not> is_ref val"
      "descend_each (descend resolve marshal n scope) (map snd kvs) km = Some (Inr (vs, km'))"
      "v' = JObj (zip (map fst kvs) vs)"
  | (arr) xs vs where
      "val = JArr xs"
      "descend_each (descend resolve marshal n scope) xs km = Some (Inr (vs, km'))"
      "v' = JArr vs"
  | (scalar) "\<not> is_dict_like val" "\<not> is_list_like val" "v' = val" "km' = km"
proof (cases "is_ref val")
  case True
  from assms True obtain ref where g: "getitem val ''$ref'' = Inr ref"
    by (cases "getitem val ''$ref''") auto
  from assms True g obtain uri d where r: "resolve scope ref = Inr (uri, d)"
    by (cases "resolve scope ref") auto
  from assms True g r obtain t where t: "determine_object_type d = Inr t"
    by (cases "determine_object_type d") auto
  show ?thesis
  proof (cases "t = Some TYPE_PATH_ITEM")
    case pi: True
    with assms True g r t show ?thesis by (intro path_item [of ref uri d]) auto
  next
    case npi: False
    from assms True g r t npi obtain L where L: "urlparse uri = Inr L"
      by (cases "urlparse uri") (auto simp: Let_def)
    show ?thesis
    proof (cases "L \<in> fst ` set (km (holder_key t))")
      case kn: True
      with assms True g r t npi L
      have "pointer marshal (holder_key t) L km = Some (Inr (v', km'))"
        by (simp add: Let_def)
      then show ?thesis
        using True g r t npi L kn by (auto simp: pointer_Inr intro: known)
    next
      case nw: False
      with assms True g r t npi L
      have c: "(case descend resolve marshal n [uri] d
                 (km(holder_key t := AList.update L JNull (km (holder_key t)))) of
              None \<Rightarrow> None
            | Some (Inl e) \<Rightarrow> Some (Inl e)
            | Some (Inr (v, km1)) \<Rightarrow>
                pointer marshal (holder_key t) L
                  (km1(holder_key t := AList.update L v (km1 (holder_key t)))))
            = Some (Inr (v', km'))"
        by (simp add: Let_def)
      then obtain v km1 where
        rec: "descend resolve marshal n [uri] d
                (km(holder_key t := AList.update L JNull (km (holder_key t)))) = Some (Inr (v, km1))"
        and p: "pointer marshal (holder_key t) L
                  (km1(holder_key t := AList.update L v (km1 (holder_key t)))) = Some (Inr (v', km'))"
        by (auto split: option.splits sum.splits)
      from p show ?thesis
        using True g r t npi L nw rec by (auto simp: pointer_Inr intro: new)
    qed
  qed
next
  case False
  show ?thesis
  proof (cases val)
    case (JObj kvs)
    with assms False obtain vs where
      "descend_each (descend resolve marshal n scope) (map snd kvs) km = Some (Inr (vs, km'))"
      "v' = JObj (zip (map fst kvs) vs)"
      by (auto split: option.splits sum.splits)
    with JObj False show ?thesis by (intro obj [of kvs vs])
  next
    case (JArr xs)
    with assms False obtain vs where
      "descend_each (descend resolve marshal n scope) xs km = Some (Inr (vs, km'))"
      "v' = JArr vs"
      by (auto split: option.splits sum.splits)
    with JArr show ?thesis by (intro arr [of xs vs])
  qed (use assms False in \<open>auto intro: scalar\<close>)
qed

lemma descend_each_rel:
  assumes refl: "\<And>km. R km km"
    and trans: "\<And>a b c. R a b \<Longrightarrow> R b c \<Longrightarrow> R a c"
    and f: "\<And>x km v km'. f x km = Some (Inr (v, km')) \<Longrightarrow> R km km'"
  shows "descend_each f xs km = Some (Inr (vs, km')) \<Longrightarrow> R km km'"
proof (induction xs arbitrary: km vs km')
  case Nil
  then show ?case by (simp add: refl)
next
  case (Cons x xs)
  from Cons.prems(1) obtain y km1 ys where
    1: "f x km = Some (Inr (y, km1))" and 2: "descend_each f xs km1 = Some (Inr (ys, km'))"
    by (auto split: option.splits sum.splits)
  have "R km km1" using 1 by (rule f)
  moreover have "R km1 km'" using 2 by (rule Cons.IH)
  ultimately show ?case by (rule trans)
qed

lemma descend_rel:
  assumes refl: "\<And>km. R km km"
    and trans: "\<And>a b c. R a b \<Longrightarrow> R b c \<Longrightarrow> R a c"
    and step: "\<And>scope ref uri d t L km km1 v m.
        resolve scope ref = Inr (uri, d) \<Longrightarrow> determine_object_type d = Inr t \<Longrightarrow>
        t \<noteq> Some TYPE_PATH_ITEM \<Longrightarrow> urlparse uri = Inr L \<Longrightarrow>
        L \<notin> fst ` set (km (holder_key t)) \<Longrightarrow>
        R (km(holder_key t := AList.update L JNull (km (holder_key t)))) km1 \<Longrightarrow>
        marshal L = Inr m \<Longrightarrow>
        R km (km1(holder_key t := AList.update L v (km1 (holder_key t))))"
  shows "descend resolve marshal n scope val km = Some (Inr (v', km')) \<Longrightarrow> R km km'"
proof (induction n arbitrary: scope val km v' km')
  case 0
  then show ?case by simp
next
  case (Suc n)
  from Suc.prems show ?case
  proof (cases rule: descend_Suc_Inr_cases)
    case (path_item ref uri d)
    then show ?thesis by (auto dest: Suc.IH)
  next
    case (known ref uri d t L m)
    then show ?thesis by (simp add: refl)
  next
    case (new ref uri d t L m v km1)
    from step [OF new(3,4,5,6,7) Suc.IH [OF new(8)] new(9)]
    show ?thesis unfolding new(11) .
  next
    case (obj kvs vs)
    have "\<And>x km v km'. descend resolve marshal n scope x km = Some (Inr (v, km')) \<Longrightarrow> R km km'"
      by (rule Suc.IH)
    from descend_each_rel [where R = R, OF refl trans this obj(3)] show ?thesis .
  next
    case (arr xs vs)
    have "\<And>x km v km'. descend resolve marshal n scope x km = Some (Inr (v, km')) \<Longrightarrow> R km km'"
      by (rule Suc.IH)
    from descend_each_rel [where R = R, OF refl trans this arr(2)] show ?thesis .
  next
    case scalar
    then show ?thesis by (simp add: refl)
  qed
qed


section \<open>Dropping the events gives the descent\<close>

lemma forget_log_simps [simp]:
  "forget_log None = None"
  "forget_log (Some (Inl e)) = Some (Inl e)"
  "forget_log (Some (Inr (v, st))) = Some (Inr (v, fst st))"
  by (simp_all add: forget_log_def)

lemma pointer_log_erase:
  "forget_log (pointer_log marshal k L st) = pointer marshal k L (fst st)"
  by (simp add: pointer_log_def pointer_def split: sum.splits)

lemma descend_each_erase:
  assumes "\<And>x st. forget_log (f x st) = g x (fst st)"
  shows "forget_log (descend_each f xs st) = descend_each g xs (fst st)"
proof (induction xs arbitrary: st)
  case Nil
  show ?case by simp
next
  case (Cons x xs)
  note fx = assms [of x st, symmetric]
  show ?case
  proof (cases "f x st")
    case None
    with fx show ?thesis by simp
  next
    case (Some r)
    show ?thesis
    proof (cases r)
      case (Inl e)
      with Some fx show ?thesis by simp
    next
      case (Inr p)
      obtain y st1 where p: "p = (y, st1)" by (cases p)
      from Some Inr p fx have g: "g x (fst st) = Some (Inr (y, fst st1))"
        by simp
      note ih = Cons.IH [of st1, symmetric]
      show ?thesis
      proof (cases "descend_each f xs st1")
        case None
        with ih Some Inr p g show ?thesis by simp
      next
        case (Some r2)
        show ?thesis
        proof (cases r2)
          case (Inl e)
          with ih Some \<open>f x st = Some r\<close> Inr p g show ?thesis by simp
        next
          case r2: (Inr q)
          obtain ys st2 where "q = (ys, st2)" by (cases q)
          with r2 ih Some \<open>f x st = Some r\<close> Inr p g show ?thesis by simp
        qed
      qed
    qed
  qed
qed

lemma descend_log_erase:
  "forget_log (descend_log resolve marshal n scope val st) =
   descend resolve marshal n scope val (fst st)"
proof (induction n arbitrary: scope val st)
  case 0
  show ?case by simp
next
  case (Suc n)
  have each: "\<And>xs. forget_log (descend_each (descend_log resolve marshal n scope) xs st) =
                   descend_each (descend resolve marshal n scope) xs (fst st)"
    by (rule descend_each_erase) (rule Suc.IH)
  show ?case
  proof (cases "is_ref val")
    case False
    show ?thesis
    proof (cases val)
      case (JObj kvs)
      with False each [of "map snd kvs", symmetric] show ?thesis
        by (cases "descend_each (descend_log resolve marshal n scope) (map snd kvs) st")
           (auto split: sum.splits)
    next
      case (JArr xs)
      with False each [of xs, symmetric] show ?thesis
        by (cases "descend_each (descend_log resolve marshal n scope) xs st")
           (auto split: sum.splits)
    qed (use False in auto)
  next
    case True
    show ?thesis
    proof (cases "getitem val ''$ref''")
      case (Inl e)
      with True show ?thesis by simp
    next
      case ref: (Inr ref)
      show ?thesis
      proof (cases "resolve scope ref")
        case (Inl e)
        with True ref show ?thesis by simp
      next
        case (Inr p)
        obtain uri d where p: "p = (uri, d)" by (cases p)
        show ?thesis
        proof (cases "determine_object_type d")
          case (Inl e)
          with True ref Inr p show ?thesis by simp
        next
          case t: (Inr t)
          show ?thesis
          proof (cases "t = Some TYPE_PATH_ITEM")
            case True
            with \<open>is_ref val\<close> ref Inr p t Suc.IH [of "[uri]" d "(fst st, snd st @ [Inlined uri])"]
            show ?thesis by simp
          next
            case npi: False
            show ?thesis
            proof (cases "urlparse uri")
              case (Inl e)
              with True ref Inr p t npi show ?thesis by (simp add: Let_def)
            next
              case L: (Inr L)
              show ?thesis
              proof (cases "L \<in> fst ` set (fst st (holder_key t))")
                case True
                with \<open>is_ref val\<close> ref Inr p t npi L show ?thesis
                  by (simp add: Let_def pointer_log_erase)
              next
                case False
                let ?st1 = "((fst st)(holder_key t := AList.update L JNull (fst st (holder_key t))),
                             snd st @ [Computed (holder_key t) L])"
                have ih: "descend resolve marshal n [uri] d
                            ((fst st)(holder_key t := AList.update L JNull (fst st (holder_key t)))) =
                          forget_log (descend_log resolve marshal n [uri] d ?st1)"
                  using Suc.IH [of "[uri]" d ?st1] by (simp only: fst_conv)
                show ?thesis
                proof (cases "descend_log resolve marshal n [uri] d ?st1")
                  case None
                  with \<open>is_ref val\<close> ref Inr p t npi L False show ?thesis
                    by (simp add: Let_def ih)
                next
                  case (Some r)
                  show ?thesis
                  proof (cases r)
                    case (Inl e)
                    with Some \<open>is_ref val\<close> ref \<open>resolve scope ref = Inr p\<close> p t npi L False
                    show ?thesis by (simp add: Let_def ih)
                  next
                    case r: (Inr q)
                    obtain v st2 where q: "q = (v, st2)" by (cases q)
                    from Some r q \<open>is_ref val\<close> ref \<open>resolve scope ref = Inr p\<close> p t npi L False
                    show ?thesis
                      by (simp add: Let_def ih pointer_log_erase)
                  qed
                qed
              qed
            qed
          qed
        qed
      qed
    qed
  qed
qed


section \<open>The cases of the descent with events\<close>

lemma pointer_log_Inr:
  "pointer_log marshal k L st = Some (Inr (v, st')) \<longleftrightarrow>
   (\<exists>m. marshal L = Inr m \<and> v = JObj [(''$ref'', JStr (''#/'' @ k @ ''/'' @ m))] \<and>
        st' = (fst st, snd st @ [Pointed k L (''#/'' @ k @ ''/'' @ m)]))"
  by (auto simp: pointer_log_def split: sum.splits)

lemma descend_log_Suc_Inr_cases:
  assumes "descend_log resolve marshal (Suc n) scope val st = Some (Inr (v', st'))"
  obtains
    (path_item) ref uri d where
      "is_ref val" "getitem val ''$ref'' = Inr ref" "resolve scope ref = Inr (uri, d)"
      "determine_object_type d = Inr (Some TYPE_PATH_ITEM)"
      "descend_log resolve marshal n [uri] d (fst st, snd st @ [Inlined uri]) = Some (Inr (v', st'))"
  | (known) ref uri d t L m where
      "is_ref val" "getitem val ''$ref'' = Inr ref" "resolve scope ref = Inr (uri, d)"
      "determine_object_type d = Inr t" "t \<noteq> Some TYPE_PATH_ITEM" "urlparse uri = Inr L"
      "L \<in> fst ` set (fst st (holder_key t))" "marshal L = Inr m"
      "v' = JObj [(''$ref'', JStr (''#/'' @ holder_key t @ ''/'' @ m))]"
      "st' = (fst st, snd st @ [Pointed (holder_key t) L (''#/'' @ holder_key t @ ''/'' @ m)])"
  | (new) ref uri d t L m v st1 where
      "is_ref val" "getitem val ''$ref'' = Inr ref" "resolve scope ref = Inr (uri, d)"
      "determine_object_type d = Inr t" "t \<noteq> Some TYPE_PATH_ITEM" "urlparse uri = Inr L"
      "L \<notin> fst ` set (fst st (holder_key t))"
      "descend_log resolve marshal n [uri] d
         ((fst st)(holder_key t := AList.update L JNull (fst st (holder_key t))),
          snd st @ [Computed (holder_key t) L]) = Some (Inr (v, st1))"
      "marshal L = Inr m"
      "v' = JObj [(''$ref'', JStr (''#/'' @ holder_key t @ ''/'' @ m))]"
      "st' = ((fst st1)(holder_key t := AList.update L v (fst st1 (holder_key t))),
              snd st1 @ [Pointed (holder_key t) L (''#/'' @ holder_key t @ ''/'' @ m)])"
  | (obj) kvs vs where
      "val = JObj kvs" "\<not> is_ref val"
      "descend_each (descend_log resolve marshal n scope) (map snd kvs) st = Some (Inr (vs, st'))"
      "v' = JObj (zip (map fst kvs) vs)"
  | (arr) xs vs where
      "val = JArr xs"
      "descend_each (descend_log resolve marshal n scope) xs st = Some (Inr (vs, st'))"
      "v' = JArr vs"
  | (scalar) "\<not> is_dict_like val" "\<not> is_list_like val" "v' = val" "st' = st"
proof (cases "is_ref val")
  case True
  from assms True obtain ref where g: "getitem val ''$ref'' = Inr ref"
    by (cases "getitem val ''$ref''") auto
  from assms True g obtain uri d where r: "resolve scope ref = Inr (uri, d)"
    by (cases "resolve scope ref") auto
  from assms True g r obtain t where t: "determine_object_type d = Inr t"
    by (cases "determine_object_type d") auto
  show ?thesis
  proof (cases "t = Some TYPE_PATH_ITEM")
    case pi: True
    with assms True g r t show ?thesis by (intro path_item [of ref uri d]) auto
  next
    case npi: False
    from assms True g r t npi obtain L where L: "urlparse uri = Inr L"
      by (cases "urlparse uri") (auto simp: Let_def)
    show ?thesis
    proof (cases "L \<in> fst ` set (fst st (holder_key t))")
      case kn: True
      with assms True g r t npi L
      have "pointer_log marshal (holder_key t) L st = Some (Inr (v', st'))"
        by (simp add: Let_def)
      then show ?thesis
        using True g r t npi L kn by (auto simp: pointer_log_Inr intro: known)
    next
      case nw: False
      with assms True g r t npi L
      have c: "(case descend_log resolve marshal n [uri] d
                 ((fst st)(holder_key t := AList.update L JNull (fst st (holder_key t))),
                  snd st @ [Computed (holder_key t) L]) of
              None \<Rightarrow> None
            | Some (Inl e) \<Rightarrow> Some (Inl e)
            | Some (Inr (v, st1)) \<Rightarrow>
                pointer_log marshal (holder_key t) L
                  ((fst st1)(holder_key t := AList.update L v (fst st1 (holder_key t))), snd st1))
            = Some (Inr (v', st'))"
        by (simp add: Let_def)
      then obtain v st1 where
        rec: "descend_log resolve marshal n [uri] d
                ((fst st)(holder_key t := AList.update L JNull (fst st (holder_key t))),
                 snd st @ [Computed (holder_key t) L]) = Some (Inr (v, st1))"
        and p: "pointer_log marshal (holder_key t) L
                  ((fst st1)(holder_key t := AList.update L v (fst st1 (holder_key t))), snd st1)
                = Some (Inr (v', st'))"
        by (auto split: option.splits sum.splits)
      from p show ?thesis
        using True g r t npi L nw rec by (auto simp: pointer_log_Inr intro: new)
    qed
  qed
next
  case False
  show ?thesis
  proof (cases val)
    case (JObj kvs)
    with assms False obtain vs where
      "descend_each (descend_log resolve marshal n scope) (map snd kvs) st = Some (Inr (vs, st'))"
      "v' = JObj (zip (map fst kvs) vs)"
      by (auto split: option.splits sum.splits)
    with JObj False show ?thesis by (intro obj [of kvs vs])
  next
    case (JArr xs)
    with assms False obtain vs where
      "descend_each (descend_log resolve marshal n scope) xs st = Some (Inr (vs, st'))"
      "v' = JArr vs"
      by (auto split: option.splits sum.splits)
    with JArr show ?thesis by (intro arr [of xs vs])
  qed (use assms False in \<open>auto intro: scalar\<close>)
qed

lemma descend_log_rel:
  assumes refl: "\<And>st. R st st"
    and trans: "\<And>a b c. R a b \<Longrightarrow> R b c \<Longrightarrow> R a c"
    and inline: "\<And>scope ref uri d st.
        resolve scope ref = Inr (uri, d) \<Longrightarrow>
        determine_object_type d = Inr (Some TYPE_PATH_ITEM) \<Longrightarrow>
        R st (fst st, snd st @ [Inlined uri])"
    and known: "\<And>scope ref uri d t L st m.
        resolve scope ref = Inr (uri, d) \<Longrightarrow> determine_object_type d = Inr t \<Longrightarrow>
        t \<noteq> Some TYPE_PATH_ITEM \<Longrightarrow> urlparse uri = Inr L \<Longrightarrow>
        L \<in> fst ` set (fst st (holder_key t)) \<Longrightarrow> marshal L = Inr m \<Longrightarrow>
        R st (fst st, snd st @ [Pointed (holder_key t) L (''#/'' @ holder_key t @ ''/'' @ m)])"
    and new: "\<And>scope ref uri d t L st st1 v m.
        resolve scope ref = Inr (uri, d) \<Longrightarrow> determine_object_type d = Inr t \<Longrightarrow>
        t \<noteq> Some TYPE_PATH_ITEM \<Longrightarrow> urlparse uri = Inr L \<Longrightarrow>
        L \<notin> fst ` set (fst st (holder_key t)) \<Longrightarrow>
        R ((fst st)(holder_key t := AList.update L JNull (fst st (holder_key t))),
           snd st @ [Computed (holder_key t) L]) st1 \<Longrightarrow>
        marshal L = Inr m \<Longrightarrow>
        R st ((fst st1)(holder_key t := AList.update L v (fst st1 (holder_key t))),
              snd st1 @ [Pointed (holder_key t) L (''#/'' @ holder_key t @ ''/'' @ m)])"
  shows "descend_log resolve marshal n scope val st = Some (Inr (v', st')) \<Longrightarrow> R st st'"
proof (induction n arbitrary: scope val st v' st')
  case 0
  then show ?case by simp
next
  case (Suc n)
  from Suc.prems show ?case
  proof (cases rule: descend_log_Suc_Inr_cases)
    case (path_item ref uri d)
    from inline [OF path_item(3,4)] Suc.IH [OF path_item(5)] show ?thesis
      by (rule trans)
  next
    case (known ref uri d t L m)
    from assms(4) [OF known(3,4,5,6,7,8)] show ?thesis unfolding known(10) .
  next
    case (new ref uri d t L m v st1)
    from assms(5) [OF new(3,4,5,6,7) Suc.IH [OF new(8)] new(9)]
    show ?thesis unfolding new(11) .
  next
    case (obj kvs vs)
    have "\<And>x st v st'. descend_log resolve marshal n scope x st = Some (Inr (v, st')) \<Longrightarrow> R st st'"
      by (rule Suc.IH)
    from descend_each_rel [where R = R, OF refl trans this obj(3)] show ?thesis .
  next
    case (arr xs vs)
    have "\<And>x st v st'. descend_log resolve marshal n scope x st = Some (Inr (v, st')) \<Longrightarrow> R st st'"
      by (rule Suc.IH)
    from descend_each_rel [where R = R, OF refl trans this arr(2)] show ?thesis .
  next
    case scalar
    then show ?thesis by (simp add: refl)
  qed
qed


section \<open>What the events of a run say\<close>

lemma computed_in_append: "computed_in k (xs @ ys) = computed_in k xs @ computed_in k ys"
  by (induction k xs rule: computed_in.induct) auto

lemma justified_mono:
  assumes "\<forall>k. fst ` set (km k) \<subseteq> fst ` set (km' k)" and "justified resolve marshal km e"
  shows "justified resolve marshal km' e"
proof (cases e)
  case (Pointed k L target)
  with assms(2) have "L \<in> fst ` set (km k)" by simp
  with assms(1) have "L \<in> fst ` set (km' k)" by blast
  with Pointed assms(2) show ?thesis by simp
qed (use assms(2) in auto)

lemma keys_from_map_fst:
  "map fst al' = map fst al @ rest \<Longrightarrow> fst ` set al \<subseteq> fst ` set al'"
proof -
  assume "map fst al' = map fst al @ rest"
  then have "set (map fst al) \<subseteq> set (map fst al')" by simp
  then show ?thesis by simp
qed

lemma log_extends_refl: "log_extends resolve marshal st st"
  by (simp add: log_extends_def)

lemma log_extends_keys:
  "log_extends resolve marshal st st' \<Longrightarrow> fst ` set (fst st k) \<subseteq> fst ` set (fst st' k)"
  unfolding log_extends_def by (blast intro: keys_from_map_fst [THEN subsetD])

lemma log_extends_trans:
  assumes "log_extends resolve marshal a b" and "log_extends resolve marshal b c"
  shows "log_extends resolve marshal a c"
proof -
  from assms(1) obtain n1 where 1: "snd b = snd a @ n1"
    "\<And>k. map fst (fst b k) = map fst (fst a k) @ computed_in k n1"
    "list_all (justified resolve marshal (fst b)) n1"
    unfolding log_extends_def by blast
  from assms(2) obtain n2 where 2: "snd c = snd b @ n2"
    "\<And>k. map fst (fst c k) = map fst (fst b k) @ computed_in k n2"
    "list_all (justified resolve marshal (fst c)) n2"
    unfolding log_extends_def by blast
  have mono: "\<forall>k. fst ` set (fst b k) \<subseteq> fst ` set (fst c k)"
    using assms(2) by (blast dest: log_extends_keys)
  have "list_all (justified resolve marshal (fst c)) n1"
    using 1(3) justified_mono [where km = "fst b" and km' = "fst c", OF mono]
    by (simp add: list_all_iff)
  with 1 2 have "snd c = snd a @ (n1 @ n2) \<and>
      (\<forall>k. map fst (fst c k) = map fst (fst a k) @ computed_in k (n1 @ n2)) \<and>
      list_all (justified resolve marshal (fst c)) (n1 @ n2)"
    by (simp add: computed_in_append)
  then show ?thesis unfolding log_extends_def by blast
qed

lemma descend_log_events:
  assumes "descend_log resolve marshal n scope val st = Some (Inr (v', st'))"
  shows "log_extends resolve marshal st st'"
  using assms
proof (rule descend_log_rel [where R = "log_extends resolve marshal", rotated -1])
  show "\<And>st. log_extends resolve marshal st st" by (rule log_extends_refl)
next
  show "\<And>a b c. log_extends resolve marshal a b \<Longrightarrow> log_extends resolve marshal b c \<Longrightarrow>
          log_extends resolve marshal a c"
    by (rule log_extends_trans)
next
  fix scope ref uri d and st :: "known_mappings \<times> event list"
  assume "resolve scope ref = Inr (uri, d)"
    "determine_object_type d = Inr (Some TYPE_PATH_ITEM)"
  then have "justified resolve marshal (fst st) (Inlined uri)" by auto
  then show "log_extends resolve marshal st (fst st, snd st @ [Inlined uri])"
    unfolding log_extends_def by (intro exI [of _ "[Inlined uri]"]) simp
next
  fix scope ref uri d t L m and st :: "known_mappings \<times> event list"
  assume a: "resolve scope ref = Inr (uri, d)" "determine_object_type d = Inr t"
    "t \<noteq> Some TYPE_PATH_ITEM" "urlparse uri = Inr L"
    "L \<in> fst ` set (fst st (holder_key t))" "marshal L = Inr m"
  let ?e = "Pointed (holder_key t) L (''#/'' @ holder_key t @ ''/'' @ m)"
  from a(1-4) have "\<exists>scope ref uri d t'. resolve scope ref = Inr (uri, d) \<and>
      determine_object_type d = Inr t' \<and> t' \<noteq> Some TYPE_PATH_ITEM \<and>
      urlparse uri = Inr L \<and> holder_key t = holder_key t'" by blast
  with a(5,6) have "justified resolve marshal (fst st) ?e" by simp
  then show "log_extends resolve marshal st (fst st, snd st @ [?e])"
    unfolding log_extends_def by (intro exI [of _ "[?e]"]) simp
next
  fix scope ref uri d t L m v and st st1 :: "known_mappings \<times> event list"
  let ?k = "holder_key t"
  let ?e = "Pointed ?k L (''#/'' @ ?k @ ''/'' @ m)"
  let ?km' = "(fst st1)(?k := AList.update L v (fst st1 ?k))"
  assume a: "resolve scope ref = Inr (uri, d)" "determine_object_type d = Inr t"
    "t \<noteq> Some TYPE_PATH_ITEM" "urlparse uri = Inr L"
    "L \<notin> fst ` set (fst st ?k)" "marshal L = Inr m"
    and r: "log_extends resolve marshal
              ((fst st)(?k := AList.update L JNull (fst st ?k)), snd st @ [Computed ?k L]) st1"
  from r obtain n1 where 1: "snd st1 = (snd st @ [Computed ?k L]) @ n1"
    "\<And>k. map fst (fst st1 k) =
          map fst (((fst st)(?k := AList.update L JNull (fst st ?k))) k) @ computed_in k n1"
    "list_all (justified resolve marshal (fst st1)) n1"
    unfolding log_extends_def by auto
  from a(5) have upd: "map fst (AList.update L JNull (fst st ?k)) = map fst (fst st ?k) @ [L]"
    by (simp add: update_keys)
  from 1(2) [of ?k] upd have k1: "map fst (fst st1 ?k) = map fst (fst st ?k) @ L # computed_in ?k n1"
    by simp
  then have Lin: "L \<in> set (map fst (fst st1 ?k))" by simp
  then have same: "map fst (AList.update L v (fst st1 ?k)) = map fst (fst st1 ?k)"
    by (simp add: update_keys)
  have keys: "\<And>k. map fst (?km' k) = map fst (fst st1 k)"
    using same by simp
  have keys': "\<And>k. map fst (?km' k) =
                 map fst (fst st k) @ computed_in k (Computed ?k L # n1 @ [?e])"
  proof -
    fix k
    show "map fst (?km' k) = map fst (fst st k) @ computed_in k (Computed ?k L # n1 @ [?e])"
    proof (cases "k = ?k")
      case True
      with keys [of k] k1 show ?thesis by (simp add: computed_in_append)
    next
      case False
      with keys [of k] 1(2) [of k] show ?thesis by (simp add: computed_in_append)
    qed
  qed
  have sub: "\<forall>k. fst ` set (fst st1 k) \<subseteq> fst ` set (?km' k)"
  proof
    fix k
    have "set (map fst (fst st1 k)) = set (map fst (?km' k))" by (simp only: keys)
    then show "fst ` set (fst st1 k) \<subseteq> fst ` set (?km' k)" by simp
  qed
  have j1: "list_all (justified resolve marshal ?km') n1"
    using 1(3) justified_mono [where km = "fst st1" and km' = ?km', OF sub]
    unfolding list_all_iff by blast
  have "L \<in> fst ` set (?km' ?k)"
    using Lin same by (metis fun_upd_same set_map)
  moreover from a(1-4) have prov: "\<exists>scope ref uri d t'. resolve scope ref = Inr (uri, d) \<and>
      determine_object_type d = Inr t' \<and> t' \<noteq> Some TYPE_PATH_ITEM \<and>
      urlparse uri = Inr L \<and> holder_key t = holder_key t'" by blast
  ultimately have j2: "justified resolve marshal ?km' ?e"
    and j0: "justified resolve marshal ?km' (Computed ?k L)"
    using a(6) by simp_all
  have "snd (?km', snd st1 @ [?e]) = snd st @ (Computed ?k L # n1 @ [?e])"
    using 1(1) by simp
  moreover have "list_all (justified resolve marshal ?km') (Computed ?k L # n1 @ [?e])"
    using j0 j1 j2 by simp
  ultimately show "log_extends resolve marshal st (?km', snd st1 @ [?e])"
    unfolding log_extends_def using keys'
    by (intro exI [of _ "Computed ?k L # n1 @ [?e]"]) (simp only: fst_conv, blast)
qed


section \<open>The marshaller: what it returns and when it raises\<close>

lemma replace_removes: "c \<notin> set dst \<Longrightarrow> c \<notin> set (replace c dst s)"
  by (induction s) (auto simp: replace_def)

lemma replace_keeps_absent:
  "c \<notin> set s \<Longrightarrow> c \<notin> set dst \<Longrightarrow> c \<notin> set (replace src dst s)"
  by (induction s) (auto simp: replace_def)

lemma apply_patterns:
  "foldl (\<lambda>s (src, dst). replace src dst s) t MARSHAL_REPLACEMENT_PATTERNS =
   replace CHR ''#'' ''|'' (replace CHR ''/'' ''..'' t)"
  by (simp add: MARSHAL_REPLACEMENT_PATTERNS_def)

lemma marshal_uri_Inr_form:
  assumes "marshal_uri cwd target_uri origin_uri = Inr s"
  shows "\<exists>t. s = foldl (\<lambda>s (src, dst). replace src dst s) t MARSHAL_REPLACEMENT_PATTERNS"
  using assms unfolding marshal_uri_def Let_def
  by (auto split: if_splits sum.splits option.splits)

lemma patterns_safe:
  "CHR ''/'' \<notin> set (replace CHR ''#'' ''|'' (replace CHR ''/'' ''..'' t)) \<and>
   CHR ''#'' \<notin> set (replace CHR ''#'' ''|'' (replace CHR ''/'' ''..'' t))"
proof
  have "CHR ''/'' \<notin> set (replace CHR ''/'' ''..'' t)"
    by (rule replace_removes) simp
  then show "CHR ''/'' \<notin> set (replace CHR ''#'' ''|'' (replace CHR ''/'' ''..'' t))"
    by (rule replace_keeps_absent) simp
  show "CHR ''#'' \<notin> set (replace CHR ''#'' ''|'' (replace CHR ''/'' ''..'' t))"
    by (rule replace_removes) simp
qed

text \<open>
  C6. Whenever \<^verbatim>\<open>_marshal_uri\<close> returns, the string it returns holds neither \<^verbatim>\<open>/\<close> nor
  \<^verbatim>\<open>#\<close>: it is some string in which every \<^verbatim>\<open>/\<close> was replaced by \<^verbatim>\<open>..\<close> and then
  every \<^verbatim>\<open>#\<close> by \<^verbatim>\<open>|\<close>.
\<close>

theorem marshal_uri_output_safe:
  assumes "marshal_uri cwd target_uri origin_uri = Inr s"
  shows "CHR ''/'' \<notin> set s \<and> CHR ''#'' \<notin> set s \<and>
         (\<exists>t. s = replace CHR ''#'' ''|'' (replace CHR ''/'' ''..'' t))"
proof -
  from marshal_uri_Inr_form [OF assms] obtain t
    where "s = replace CHR ''#'' ''|'' (replace CHR ''/'' ''..'' t)"
    by (auto simp: apply_patterns)
  then show ?thesis using patterns_safe [of t] by blast
qed

lemma marshal_uri_http_example:
  "marshal_uri ''/srv'' (ParseResult ''http'' ''h.org'' ''/a/b.json'' [] [] ''/definitions/X'') None
   = Inr ''http:....h.org..a..b.json|..definitions..X''"
  by (simp add: marshal_uri_def urlunparse_def urlunsplit_def uses_netloc_def
      MARSHAL_REPLACEMENT_PATTERNS_def replace_def)

theorem marshal_uri_output_safe_witness:
  "CHR ''/'' \<notin> set ''http:....h.org..a..b.json|..definitions..X'' \<and>
   CHR ''#'' \<notin> set ''http:....h.org..a..b.json|..definitions..X'' \<and>
   (\<exists>t. ''http:....h.org..a..b.json|..definitions..X'' =
        replace CHR ''#'' ''|'' (replace CHR ''/'' ''..'' t))"
  using marshal_uri_output_safe [OF marshal_uri_http_example] .

lemma urlunsplit_scheme_nonempty: "s \<noteq> [] \<Longrightarrow> urlunsplit s n u q f \<noteq> []"
  by (simp add: urlunsplit_def Let_def)

lemma urlunparse_scheme_nonempty: "scheme u \<noteq> [] \<Longrightarrow> urlunparse u \<noteq> []"
  by (simp add: urlunparse_def urlunsplit_scheme_nonempty)

lemma marshal_uri_invalid:
  assumes "urlunparse t = [] \<or>
           (if scheme t = [] then ''file'' else scheme t) \<notin> {''file'', ''http'', ''https''}"
  shows "\<exists>msg. marshal_uri cwd t origin = Inl (ValueError (''Invalid target: '' @ msg))"
  using assms unfolding marshal_uri_def Let_def
  by (auto simp: urlunparse_scheme_nonempty split: if_splits)

lemma marshal_uri_valid:
  assumes "\<not> (urlunparse t = [] \<or>
              (if scheme t = [] then ''file'' else scheme t) \<notin> {''file'', ''http'', ''https''})"
  shows "marshal_uri cwd t origin =
     (if origin \<noteq> None \<and> (if scheme t = [] then ''file'' else scheme t) = ''file'' \<and> path t = []
      then Inl (ValueError ''no path specified'')
      else Inr (case marshal_uri cwd t origin of Inr s \<Rightarrow> s | Inl e \<Rightarrow> []))"
  using assms unfolding marshal_uri_def Let_def
  apply (cases origin)
   apply (auto simp: urlunparse_scheme_nonempty relpath_def Let_def split: if_splits sum.splits)
  done

text \<open>
  C5, as the specification states it, fails: with an origin, the scheme \<^verbatim>\<open>file\<close> and an
  empty path the serialized target is not empty and the scheme is allowed, and still
  the marshaller raises, because \<^verbatim>\<open>os.path.relpath\<close> refuses the empty path.
\<close>

theorem marshal_uri_empty_path_raises:
  "marshal_uri ''/srv'' (ParseResult ''file'' ''host'' [] [] [] [])
     (Some (ParseResult ''file'' [] ''/specs/a.json'' [] [] []))
   = Inl (ValueError ''no path specified'') \<and>
   urlunparse (ParseResult ''file'' ''host'' [] [] [] []) = ''file://host'' \<and>
   scheme (ParseResult ''file'' ''host'' [] [] [] []) \<in> {''file'', ''http'', ''https''}"
  by (simp add: marshal_uri_def urlunparse_def urlunsplit_def uses_netloc_def relpath_def)

text \<open>
  C5, amended. \<^verbatim>\<open>_marshal_uri\<close> raises its own \<^verbatim>\<open>ValueError\<close> (``Invalid target'') exactly
  when the serialized target is empty or the scheme, an empty one read as \<^verbatim>\<open>file\<close>, is
  none of \<^verbatim>\<open>file\<close>, \<^verbatim>\<open>http\<close>, \<^verbatim>\<open>https\<close>. On every other input it returns a string, except
  that with an origin, the scheme \<^verbatim>\<open>file\<close> and an empty target path the call of
  \<^verbatim>\<open>os.path.relpath\<close> raises \<^verbatim>\<open>ValueError("no path specified")\<close>.
\<close>

theorem marshal_uri_outcomes:
  "((\<exists>msg. marshal_uri cwd t origin = Inl (ValueError (''Invalid target: '' @ msg))) \<longleftrightarrow>
      (urlunparse t = [] \<or>
       (if scheme t = [] then ''file'' else scheme t) \<notin> {''file'', ''http'', ''https''})) \<and>
   (marshal_uri cwd t origin = Inl (ValueError ''no path specified'') \<longleftrightarrow>
      (\<not> (urlunparse t = [] \<or>
           (if scheme t = [] then ''file'' else scheme t) \<notin> {''file'', ''http'', ''https''}) \<and>
       origin \<noteq> None \<and> (if scheme t = [] then ''file'' else scheme t) = ''file'' \<and> path t = [])) \<and>
   ((\<exists>s. marshal_uri cwd t origin = Inr s) \<longleftrightarrow>
      (\<not> (urlunparse t = [] \<or>
           (if scheme t = [] then ''file'' else scheme t) \<notin> {''file'', ''http'', ''https''}) \<and>
       \<not> (origin \<noteq> None \<and> (if scheme t = [] then ''file'' else scheme t) = ''file'' \<and>
          path t = [])))"
proof (cases "urlunparse t = [] \<or>
       (if scheme t = [] then ''file'' else scheme t) \<notin> {''file'', ''http'', ''https''}")
  case True
  from marshal_uri_invalid [OF True, of cwd origin] obtain msg
    where m: "marshal_uri cwd t origin = Inl (ValueError (''Invalid target: '' @ msg))" ..
  have "ValueError (''Invalid target: '' @ msg) \<noteq> ValueError ''no path specified''"
    by simp
  with m True show ?thesis by auto
next
  case False
  note v = marshal_uri_valid [OF False, of cwd origin]
  show ?thesis
  proof (cases "origin \<noteq> None \<and> (if scheme t = [] then ''file'' else scheme t) = ''file'' \<and>
                path t = []")
    case True
    with v have "marshal_uri cwd t origin = Inl (ValueError ''no path specified'')"
      by simp
    with False True show ?thesis by auto
  next
    case nopath: False
    with v have "\<exists>s. marshal_uri cwd t origin = Inr s"
      by (metis (no_types, lifting))
    with False nopath show ?thesis by auto
  qed
qed

theorem marshal_uri_outcomes_witness:
  "marshal_uri ''/srv'' (ParseResult ''ftp'' ''h'' ''/a'' [] [] []) None
     = Inl (ValueError (''Invalid target: '' @ [CHR 0x27] @ ''ftp://h/a'' @ [CHR 0x27])) \<and>
   (\<exists>s. marshal_uri ''/srv'' (ParseResult [] [] ''a.json'' [] [] []) None = Inr s)"
proof
  show "marshal_uri ''/srv'' (ParseResult ''ftp'' ''h'' ''/a'' [] [] []) None
     = Inl (ValueError (''Invalid target: '' @ [CHR 0x27] @ ''ftp://h/a'' @ [CHR 0x27]))"
    by (simp add: marshal_uri_def urlunparse_def urlunsplit_def uses_netloc_def)
  have "urlunparse (ParseResult [] [] ''a.json'' [] [] []) \<noteq> []"
    by (simp add: urlunparse_def urlunsplit_def)
  then show "\<exists>s. marshal_uri ''/srv'' (ParseResult [] [] ''a.json'' [] [] []) None = Inr s"
    using marshal_uri_outcomes [of "''/srv''" "ParseResult [] [] ''a.json'' [] [] []" None]
    by simp
qed

section \<open>The classifier\<close>

text \<open>
  C2. The docstring of \<^verbatim>\<open>_determine_object_type\<close> promises one of the four type
  constants. On a mapping that has an HTTP verb among its keys and, beside the verbs,
  keys other than \<^verbatim>\<open>parameters\<close>, the function reaches its end and returns \<^verbatim>\<open>None\<close>.
\<close>

theorem determine_object_type_falls_through:
  "determine_object_type (JObj [(''get'', JObj []), (''foo'', JInt 1)]) = Inr None"
  by (simp add: classify_keys_def startswith_def http_operations_def)

lemma classify_keys_verbs_and_more:
  assumes "\<not> (''in'' \<in> set ks \<and> ''name'' \<in> set ks)"
    and "set (filter (\<lambda>key. \<not> startswith key ''x-'') ks) \<inter> http_operations \<noteq> {}"
    and "set (filter (\<lambda>key. \<not> startswith key ''x-'') ks) - http_operations \<noteq> {}"
    and "set (filter (\<lambda>key. \<not> startswith key ''x-'') ks) - http_operations \<noteq> {''parameters''}"
  shows "classify_keys ks = None"
  using assms by (simp add: classify_keys_def Let_def)

section \<open>Single resolution per location\<close>

lemma descend_keeps_distinct:
  assumes "descend resolve marshal n scope val km = Some (Inr (v', km'))"
  shows "(\<forall>k. distinct (map fst (km k))) \<longrightarrow> (\<forall>k. distinct (map fst (km' k)))"
  using assms
proof (rule descend_rel [where R = "\<lambda>a b. (\<forall>k. distinct (map fst (a k))) \<longrightarrow>
                                          (\<forall>k. distinct (map fst (b k)))", rotated -1])
  fix t L v and km km1 :: known_mappings
  assume "(\<forall>k. distinct (map fst ((km(holder_key t := AList.update L JNull (km (holder_key t)))) k)))
          \<longrightarrow> (\<forall>k. distinct (map fst (km1 k)))"
  then show "(\<forall>k. distinct (map fst (km k))) \<longrightarrow>
        (\<forall>k. distinct (map fst ((km1(holder_key t := AList.update L v (km1 (holder_key t)))) k)))"
    by (simp add: distinct_update)
qed simp_all

lemma descend_log_Inr_descend:
  assumes "descend_log resolve marshal n scope val st = Some (Inr (v', st'))"
  shows "descend resolve marshal n scope val (fst st) = Some (Inr (v', fst st'))"
  using descend_log_erase [of resolve marshal n scope val st] assms by simp

lemma count_list_computed_in:
  "count_list (computed_in k es) L = count_list es (Computed k L)"
  by (induction k es rule: computed_in.induct) auto

lemma distinct_count_list_one: "distinct xs \<Longrightarrow> x \<in> set xs \<Longrightarrow> count_list xs x = 1"
  by (induction xs) auto

lemma length_filter_fst: "length (filter (\<lambda>entry. fst entry = L) al) = count_list (map fst al) L"
  by (induction al) auto

lemma run_outcome:
  "(case r of None \<Rightarrow> False | Some (Inl e) \<Rightarrow> False | Some (Inr (v, km, log)) \<Rightarrow> P v km log) \<Longrightarrow>
   \<exists>v km log. r = Some (Inr (v, km, log)) \<and> P v km log"
  by (auto split: option.splits sum.splits)

text \<open>
  C3, as the specification states it, fails for a location whose resolved value is
  classified as a path item. In the document \<open>shared_path_item\<close> the location \<^verbatim>\<open>#/p\<close> is
  referenced twice: its value is flattened twice (two \<open>Inlined\<close> events), no pointer is
  produced and none of the three tables gets an entry.
\<close>

theorem path_item_resolved_at_every_reference:
  "(case descend_log (root_resolve example_url shared_path_item)
           (\<lambda>uri. marshal_uri ''/srv'' uri None) 4 [example_url] shared_path_item
           (\<lambda>k. [], []) of
      Some (Inr (v, km, log)) \<Rightarrow>
        (v, map km [''parameters'', ''responses'', ''definitions''], log)
    | _ \<Rightarrow> (JNull, [], []))
   = (JObj [(''a'', JObj [(''get'', JObj [])]), (''b'', JObj [(''get'', JObj [])]),
            (''p'', JObj [(''get'', JObj [])])],
      [[], [], []],
      [Inlined ''file:///specs/a.json#/p'', Inlined ''file:///specs/a.json#/p''])"
  by code_simp

text \<open>
  C3, amended. In a run of the descent that starts from the empty table, take any
  location for which a pointer was produced under a holder (so its resolved value was
  classified as parameter, response or schema, not as path item). The value of that
  location was computed exactly once in the run, however often it was referenced; every
  pointer produced for it is the string \<^verbatim>\<open>#/holder/key\<close> with the marshalled key of the
  location; and the holder's table has exactly one entry for it.
\<close>

theorem descend_log_single_resolution:
  assumes "descend_log resolve marshal n scope val (\<lambda>k. [], []) = Some (Inr (v, km, log))"
  shows "\<forall>k L target. Pointed k L target \<in> set log \<longrightarrow>
           count_list log (Computed k L) = 1 \<and>
           (\<exists>m. marshal L = Inr m \<and> target = ''#/'' @ k @ ''/'' @ m) \<and>
           length (filter (\<lambda>entry. fst entry = L) (km k)) = 1"
proof (intro allI impI)
  fix k L target
  assume p: "Pointed k L target \<in> set log"
  from descend_log_events [OF assms]
  have keys: "\<And>k. map fst (km k) = computed_in k log"
    and just: "list_all (justified resolve marshal km) log"
    unfolding log_extends_def by auto
  from just p have j: "justified resolve marshal km (Pointed k L target)"
    unfolding list_all_iff by blast
  then have Lin: "L \<in> set (map fst (km k))" by simp
  from descend_keeps_distinct [OF descend_log_Inr_descend [OF assms]]
  have "distinct (map fst (km k))" by simp
  with Lin have one: "count_list (map fst (km k)) L = 1"
    by (rule distinct_count_list_one [rotated])
  then have "count_list log (Computed k L) = 1"
    by (simp add: keys count_list_computed_in)
  moreover from j have "\<exists>m. marshal L = Inr m \<and> target = ''#/'' @ k @ ''/'' @ m" by simp
  moreover from one have "length (filter (\<lambda>entry. fst entry = L) (km k)) = 1"
    by (simp add: length_filter_fst)
  ultimately show "count_list log (Computed k L) = 1 \<and>
           (\<exists>m. marshal L = Inr m \<and> target = ''#/'' @ k @ ''/'' @ m) \<and>
           length (filter (\<lambda>entry. fst entry = L) (km k)) = 1" by blast
qed

theorem descend_log_single_resolution_witness:
  "\<exists>v km log.
     descend_log (root_resolve example_url shared_schema)
       (\<lambda>uri. marshal_uri ''/srv'' uri None) 4 [example_url] shared_schema (\<lambda>k. [], [])
       = Some (Inr (v, km, log)) \<and>
     log = [Computed ''definitions'' (ParseResult ''file'' [] ''/specs/a.json'' [] [] ''/d''),
            Pointed ''definitions'' (ParseResult ''file'' [] ''/specs/a.json'' [] [] ''/d'')
              ''#/definitions/file:......specs..a.json|..d'',
            Pointed ''definitions'' (ParseResult ''file'' [] ''/specs/a.json'' [] [] ''/d'')
              ''#/definitions/file:......specs..a.json|..d''] \<and>
     count_list log
       (Computed ''definitions'' (ParseResult ''file'' [] ''/specs/a.json'' [] [] ''/d'')) = 1 \<and>
     length (filter (\<lambda>entry. fst entry = ParseResult ''file'' [] ''/specs/a.json'' [] [] ''/d'')
               (km ''definitions'')) = 1"
proof -
  let ?L = "ParseResult ''file'' [] ''/specs/a.json'' [] [] ''/d''"
  let ?T = "''#/definitions/file:......specs..a.json|..d''"
  have "\<exists>v km log.
     descend_log (root_resolve example_url shared_schema)
       (\<lambda>uri. marshal_uri ''/srv'' uri None) 4 [example_url] shared_schema (\<lambda>k. [], [])
       = Some (Inr (v, km, log)) \<and>
     log = [Computed ''definitions'' ?L, Pointed ''definitions'' ?L ?T,
            Pointed ''definitions'' ?L ?T]"
    by (rule run_outcome) code_simp
  then obtain v km log where
    run: "descend_log (root_resolve example_url shared_schema)
       (\<lambda>uri. marshal_uri ''/srv'' uri None) 4 [example_url] shared_schema (\<lambda>k. [], [])
       = Some (Inr (v, km, log))"
    and log: "log = [Computed ''definitions'' ?L, Pointed ''definitions'' ?L ?T,
                     Pointed ''definitions'' ?L ?T]"
    by blast
  from log have "Pointed ''definitions'' ?L ?T \<in> set log" by simp
  with descend_log_single_resolution [OF run]
  have "count_list log (Computed ''definitions'' ?L) = 1 \<and>
        length (filter (\<lambda>entry. fst entry = ?L) (km ''definitions'')) = 1"
    by blast
  with run log show ?thesis by blast
qed

section \<open>Path items are inlined\<close>












section \<open>The end-to-end example\<close>

lemma marshal_pet:
  "marshal_uri cwd (ParseResult ''file'' [] ''/specs/a.json'' [] [] ''/definitions/Pet'')
     (Some (ParseResult ''file'' [] ''/specs/a.json'' [] [] []))
   = Inr ''lfile:a.json|..definitions..Pet''"
  by (simp add: marshal_uri_def urlunparse_def urlunsplit_def uses_netloc_def relpath_def
      dirname_def abspath_def normpath_def startswith_def MARSHAL_REPLACEMENT_PATTERNS_def
      replace_def Let_def)

lemma parse_example_url:
  "urlparse example_url = Inr (ParseResult ''file'' [] ''/specs/a.json'' [] [] [])"
  by code_simp

lemma parse_pet_url:
  "urlparse ''file:///specs/a.json#/definitions/Pet''
   = Inr (ParseResult ''file'' [] ''/specs/a.json'' [] [] ''/definitions/Pet'')"
  by code_simp

lemma resolve_pet:
  "root_resolve example_url pet_document [u] (JStr ''#/definitions/Pet'') =
   (if takeWhile (\<lambda>c. c \<noteq> CHR ''#'') u = example_url
    then Inr (''file:///specs/a.json#/definitions/Pet'', JObj [(''type'', JStr ''object'')])
    else Inl (RefResolutionError ''#/definitions/Pet''))"
  by (simp add: root_resolve_def pet_document_def example_url_def)

lemma pet_descent_from:
  assumes r: "R [u] (JStr ''#/definitions/Pet'') = Inr (uri, JObj [(''type'', JStr ''object'')])"
    and p: "urlparse uri = Inr L" and m: "marshal L = Inr m"
  shows "descend R marshal (Suc (Suc (Suc (Suc (Suc n))))) [u]
      (JObj [(''definitions'',
              JObj [(''Pet'', JObj [(''type'', JStr ''object'')]),
                    (''Ref'', JObj [(''$ref'', JStr ''#/definitions/Pet'')])])])
      (\<lambda>k. [])
  = Some (Inr (JObj [(''definitions'',
                      JObj [(''Pet'', JObj [(''type'', JStr ''object'')]),
                            (''Ref'', JObj [(''$ref'', JStr (''#/definitions/'' @ m))])])],
               (\<lambda>k. [])(''definitions'' := [(L, JObj [(''type'', JStr ''object'')])])))"
proof -
  have t: "determine_object_type (JObj [(''type'', JStr ''object'')]) = Inr (Some TYPE_SCHEMA)"
    by code_simp
  have t': "classify_keys [''type''] = Some TYPE_SCHEMA"
    by code_simp
  have h: "holder_key (Some TYPE_SCHEMA) = ''definitions''"
    by (simp add: holder_key_def TYPE_PROPERTY_HOLDER_MAPPING_def)
  show ?thesis
    by (simp add: r t t' h p m pointer_def)
qed

lemma pet_descent:
  assumes "marshal (ParseResult ''file'' [] ''/specs/a.json'' [] [] ''/definitions/Pet'') = Inr m"
  shows "descend (root_resolve example_url pet_document) marshal (Suc (Suc (Suc (Suc (Suc n)))))
      [example_url] pet_document (\<lambda>k. [])
  = Some (Inr (JObj [(''definitions'',
                      JObj [(''Pet'', JObj [(''type'', JStr ''object'')]),
                            (''Ref'', JObj [(''$ref'', JStr (''#/definitions/'' @ m))])])],
               (\<lambda>k. [])(''definitions'' :=
                  [(ParseResult ''file'' [] ''/specs/a.json'' [] [] ''/definitions/Pet'',
                    JObj [(''type'', JStr ''object'')])])))"
proof -
  have r: "root_resolve example_url pet_document [example_url] (JStr ''#/definitions/Pet'') =
     Inr (''file:///specs/a.json#/definitions/Pet'', JObj [(''type'', JStr ''object'')])"
  proof -
    have "takeWhile (\<lambda>c. c \<noteq> CHR ''#'') example_url = example_url"
      by (simp add: example_url_def)
    then show ?thesis by (simp add: resolve_pet)
  qed
  have "descend (root_resolve example_url pet_document) marshal (Suc (Suc (Suc (Suc (Suc n)))))
      [example_url]
      (JObj [(''definitions'',
              JObj [(''Pet'', JObj [(''type'', JStr ''object'')]),
                    (''Ref'', JObj [(''$ref'', JStr ''#/definitions/Pet'')])])])
      (\<lambda>k. [])
  = Some (Inr (JObj [(''definitions'',
                      JObj [(''Pet'', JObj [(''type'', JStr ''object'')]),
                            (''Ref'', JObj [(''$ref'', JStr (''#/definitions/'' @ m))])])],
               (\<lambda>k. [])(''definitions'' :=
                  [(ParseResult ''file'' [] ''/specs/a.json'' [] [] ''/definitions/Pet'',
                    JObj [(''type'', JStr ''object'')])])))"
    using r parse_pet_url assms by (rule pet_descent_from)
  then show ?thesis
    by (simp only: pet_document_def [symmetric])
qed


lemma pet_attach:
  assumes "marshal (ParseResult ''file'' [] ''/specs/a.json'' [] [] ''/definitions/Pet'') = Inr m"
  shows "attach_mappings marshal
      ((\<lambda>k. [])(''definitions'' :=
         [(ParseResult ''file'' [] ''/specs/a.json'' [] [] ''/definitions/Pet'', v)]))
      (map snd TYPE_PROPERTY_HOLDER_MAPPING)
      (JObj [(''definitions'', old)]) ws
    = (ws, Inr (JObj [(''definitions'', JObj [(m, v)])]))"
  by (simp add: TYPE_PROPERTY_HOLDER_MAPPING_def
      warn_if_uri_clash_on_same_marshaled_representation_def assms set_add_def)

text \<open>
  C1, as the specification states it, fails. Flattening the example document with the
  origin \<^verbatim>\<open>file:///specs/a.json\<close> returns a document whose \<^verbatim>\<open>definitions\<close> mapping is the
  table of flattened schemas and nothing else: its only key is
  \<^verbatim>\<open>lfile:a.json|..definitions..Pet\<close>, the key \<^verbatim>\<open>a.json|definitions..Pet\<close> is absent, and so
  is \<^verbatim>\<open>Ref\<close>, because \<^verbatim>\<open>resolved_spec.update\<close> replaces the mapping the input had there.
\<close>

theorem pet_example_claimed_key_absent:
  "flattened_spec 5 root_resolver pet_document None (Some example_url) (marshal_uri ''/srv'')
   = ([definitions_warning],
      Some (Inr (JObj [(''definitions'',
               JObj [(''lfile:a.json|..definitions..Pet'', JObj [(''type'', JStr ''object'')])])]))) \<and>
   getitem (JObj [(''lfile:a.json|..definitions..Pet'', JObj [(''type'', JStr ''object'')])])
     ''a.json|definitions..Pet'' = Inl (KeyError ''a.json|definitions..Pet'') \<and>
   getitem (JObj [(''lfile:a.json|..definitions..Pet'', JObj [(''type'', JStr ''object'')])])
     ''Ref'' = Inl (KeyError ''Ref'')"
  by code_simp

text \<open>
  C1, amended. For the root document of the example, flattened with the origin
  \<^verbatim>\<open>file:///specs/a.json\<close> (any working directory, any depth bound from 5 on), the returned
  document is \<^verbatim>\<open>{definitions: {"lfile:a.json|..definitions..Pet": {type: object}}}\<close>; the
  only warning is the one about \<^verbatim>\<open>spec_definitions\<close>. The descent rewrites the \<^verbatim>\<open>Ref\<close>
  node to \<^verbatim>\<open>{$ref: "#/definitions/lfile:a.json|..definitions..Pet"}\<close> and files
  \<^verbatim>\<open>{type: object}\<close> under the parsed location in the table of definitions; the rewritten
  node is in the descended document, which the returned document's \<^verbatim>\<open>definitions\<close> entry
  no longer holds.
\<close>

theorem pet_example_flattened:
  "flattened_spec (Suc (Suc (Suc (Suc (Suc n))))) root_resolver pet_document None
     (Some example_url) (marshal_uri cwd)
   = ([definitions_warning],
      Some (Inr (JObj [(''definitions'',
               JObj [(''lfile:a.json|..definitions..Pet'', JObj [(''type'', JStr ''object'')])])]))) \<and>
   descend (root_resolve example_url pet_document)
     (\<lambda>uri. marshal_uri cwd uri (Some (ParseResult ''file'' [] ''/specs/a.json'' [] [] [])))
     (Suc (Suc (Suc (Suc (Suc n))))) [example_url] pet_document (\<lambda>k. [])
   = Some (Inr (JObj [(''definitions'',
                       JObj [(''Pet'', JObj [(''type'', JStr ''object'')]),
                             (''Ref'', JObj [(''$ref'',
                                JStr ''#/definitions/lfile:a.json|..definitions..Pet'')])])],
                (\<lambda>k. [])(''definitions'' :=
                   [(ParseResult ''file'' [] ''/specs/a.json'' [] [] ''/definitions/Pet'',
                     JObj [(''type'', JStr ''object'')])])))"
proof
  let ?marshal = "\<lambda>uri. marshal_uri cwd uri (Some (ParseResult ''file'' [] ''/specs/a.json'' [] [] []))"
  have m: "?marshal (ParseResult ''file'' [] ''/specs/a.json'' [] [] ''/definitions/Pet'')
           = Inr ''lfile:a.json|..definitions..Pet''"
    by (rule marshal_pet)
  from pet_descent [of ?marshal, OF m]
  show d: "descend (root_resolve example_url pet_document) ?marshal
     (Suc (Suc (Suc (Suc (Suc n))))) [example_url] pet_document (\<lambda>k. [])
   = Some (Inr (JObj [(''definitions'',
                       JObj [(''Pet'', JObj [(''type'', JStr ''object'')]),
                             (''Ref'', JObj [(''$ref'',
                                JStr ''#/definitions/lfile:a.json|..definitions..Pet'')])])],
                (\<lambda>k. [])(''definitions'' :=
                   [(ParseResult ''file'' [] ''/specs/a.json'' [] [] ''/definitions/Pet'',
                     JObj [(''type'', JStr ''object'')])])))"
    by simp
  have ne: "example_url \<noteq> []" by (simp add: example_url_def)
  show "flattened_spec (Suc (Suc (Suc (Suc (Suc n))))) root_resolver pet_document None
     (Some example_url) (marshal_uri cwd)
   = ([definitions_warning],
      Some (Inr (JObj [(''definitions'',
               JObj [(''lfile:a.json|..definitions..Pet'', JObj [(''type'', JStr ''object'')])])])))"
    unfolding flattened_spec_def
    by (simp only: Let_def)
       (simp add: ne parse_example_url root_resolver_def d
          pet_attach [where marshal = ?marshal, OF m] del: descend.simps)
qed

theorem pet_example_flattened_witness:
  "flattened_spec (Suc (Suc (Suc (Suc (Suc 0))))) root_resolver pet_document None
     (Some example_url) (marshal_uri ''/'')
   = ([definitions_warning],
      Some (Inr (JObj [(''definitions'',
               JObj [(''lfile:a.json|..definitions..Pet'', JObj [(''type'', JStr ''object'')])])])))"
  using pet_example_flattened [of 0 "''/''"] by (rule conjunct1)

section \<open>Attaching the tables to the document\<close>













section \<open>The collision report\<close>

lemma group_uris_append:
  "group_uris marshal acc (xs @ ys) =
   (case group_uris marshal acc xs of Inl e \<Rightarrow> Inl e | Inr acc' \<Rightarrow> group_uris marshal acc' ys)"
  by (induction xs arbitrary: acc) (auto split: sum.splits)

lemma first_occurrences_snoc:
  "first_occurrences (xs @ [x]) =
   (if x \<in> set xs then first_occurrences xs else first_occurrences xs @ [x])"
  by (simp add: first_occurrences_def)

lemma set_first_occurrences: "set (first_occurrences xs) = set xs"
  by (simp add: first_occurrences_def)

lemma distinct_first_occurrences: "distinct (first_occurrences xs)"
  by (simp add: first_occurrences_def)

lemma map_of_tabulated:
  "map_of (map (\<lambda>k. (k, f k)) ks) k = (if k \<in> set ks then Some (f k) else None)"
  by (induction ks) auto

lemma update_tabulated:
  assumes "distinct ks"
  shows "AList.update k v (map (\<lambda>k. (k, f k)) ks) =
   (if k \<in> set ks then map (\<lambda>k'. (k', if k' = k then v else f k')) ks
    else map (\<lambda>k. (k, f k)) ks @ [(k, v)])"
  using assms
proof (induction ks)
  case Nil
  show ?case by simp
next
  case (Cons a ks)
  show ?case
  proof (cases "a = k")
    case True
    with Cons.prems have "k \<notin> set ks" by simp
    then have "map (\<lambda>k'. (k', if k' = k then v else f k')) ks = map (\<lambda>k. (k, f k)) ks"
      by (intro map_cong) auto
    with True show ?thesis by simp
  next
    case False
    then show ?thesis using Cons by auto
  qed
qed

lemma group_uris_tabulated:
  assumes "distinct uris" and "\<And>u. u \<in> set uris \<Longrightarrow> marshal u = Inr (key u)"
  shows "group_uris marshal [] uris =
         Inr (map (\<lambda>k. (k, filter (\<lambda>u. key u = k) uris)) (first_occurrences (map key uris)))"
  using assms
proof (induction uris rule: rev_induct)
  case Nil
  show ?case by (simp add: first_occurrences_def)
next
  case (snoc x xs)
  let ?g = "\<lambda>k. filter (\<lambda>u. key u = k) xs"
  let ?ks = "first_occurrences (map key xs)"
  from snoc.prems have d: "distinct xs" and nx: "x \<notin> set xs"
    and mx: "marshal x = Inr (key x)" by simp_all
  from snoc.prems have ih: "group_uris marshal [] xs = Inr (map (\<lambda>k. (k, ?g k)) ?ks)"
    by (intro snoc.IH) simp_all
  have old: "(case map_of (map (\<lambda>k. (k, ?g k)) ?ks) (key x) of None \<Rightarrow> [] | Some us \<Rightarrow> us)
             = ?g (key x)"
  proof (cases "key x \<in> key ` set xs")
    case True
    then show ?thesis by (simp add: map_of_tabulated set_first_occurrences)
  next
    case False
    then have "\<And>u. u \<in> set xs \<Longrightarrow> key u \<noteq> key x" by (metis imageI)
    then have "?g (key x) = []" by (simp add: filter_empty_conv)
    with False show ?thesis by (simp add: map_of_tabulated set_first_occurrences)
  qed
  have add: "set_add x (?g (key x)) = ?g (key x) @ [x]"
    using nx by (simp add: set_add_def)
  have "group_uris marshal [] (xs @ [x]) =
        Inr (AList.update (key x) (?g (key x) @ [x]) (map (\<lambda>k. (k, ?g k)) ?ks))"
    by (simp add: group_uris_append ih mx old add)
  also have "AList.update (key x) (?g (key x) @ [x]) (map (\<lambda>k. (k, ?g k)) ?ks) =
        map (\<lambda>k. (k, filter (\<lambda>u. key u = k) (xs @ [x]))) (first_occurrences (map key (xs @ [x])))"
    by (auto simp: update_tabulated [OF distinct_first_occurrences] first_occurrences_snoc
          set_first_occurrences)
  finally show ?case .
qed

lemma tabulated_clashes:
  "map (\<lambda>(k, us). msg k us) (filter (\<lambda>(k, us). 1 < length us) (map (\<lambda>k. (k, g k)) ks)) =
   map (\<lambda>k. msg k (g k)) (filter (\<lambda>k. 1 < length (g k)) ks)"
  by (induction ks) auto

lemma group_sizes_injective:
  assumes "distinct uris" and "length (first_occurrences (map key uris)) = length uris"
  shows "length (filter (\<lambda>u. key u = k) uris) \<le> 1"
proof -
  have "card (key ` set uris) = length (first_occurrences (map key uris))"
    using distinct_card [OF distinct_first_occurrences, of "map key uris"]
    by (simp add: set_first_occurrences)
  also have "\<dots> = card (set uris)" using assms by (simp add: distinct_card)
  finally have "inj_on key (set uris)" by (intro eq_card_imp_inj_on) simp_all
  then have "\<And>u v. u \<in> set uris \<Longrightarrow> v \<in> set uris \<Longrightarrow> key u = key v \<Longrightarrow> u = v"
    by (auto dest: inj_onD)
  with assms(1) show ?thesis
  proof (induction uris)
    case Nil
    show ?case by simp
  next
    case (Cons a uris)
    have ih: "length (filter (\<lambda>u. key u = k) uris) \<le> 1"
      using Cons by (intro Cons.IH) auto
    show ?case
    proof (cases "key a = k")
      case True
      have "filter (\<lambda>u. key u = k) uris = []"
      proof (rule ccontr)
        assume "filter (\<lambda>u. key u = k) uris \<noteq> []"
        then obtain v where "v \<in> set uris" "key v = k"
          by (auto simp: filter_empty_conv)
        with True Cons.prems(2) [of a v] have "a = v" by simp
        with \<open>v \<in> set uris\<close> Cons.prems(1) show False by simp
      qed
      with True show ?thesis by simp
    next
      case False
      with ih show ?thesis by simp
    qed
  qed
qed

lemma reporter_refines:
  assumes "distinct (map fst table)"
    and "\<And>u. u \<in> fst ` set table \<Longrightarrow> marshal u = Inr (key u)"
  shows "warn_if_uri_clash_on_same_marshaled_representation table marshal =
         Inr (clash_warnings key (map fst table))"
proof -
  let ?uris = "map fst table"
  let ?g = "\<lambda>k. filter (\<lambda>u. key u = k) ?uris"
  let ?ks = "first_occurrences (map key ?uris)"
  have g: "group_uris marshal [] ?uris = Inr (map (\<lambda>k. (k, ?g k)) ?ks)"
    using assms by (intro group_uris_tabulated) simp_all
  have w: "clash_warnings key ?uris =
           map (\<lambda>k. clash_message k (?g k)) (filter (\<lambda>k. 1 < length (?g k)) ?ks)"
    unfolding clash_warnings_def clash_message_def by (rule refl)
  show ?thesis
  proof (cases "length ?ks = length table")
    case True
    then have "length ?ks = length ?uris" by simp
    from group_sizes_injective [OF assms(1) this]
    have "filter (\<lambda>k. 1 < length (?g k)) ?ks = []"
      by (simp add: filter_empty_conv not_less)
    with True show ?thesis
      unfolding warn_if_uri_clash_on_same_marshaled_representation_def w
      by (simp add: g)
  next
    case False
    then have ne: "(length ?ks = length table) = False" by simp
    show ?thesis
      unfolding warn_if_uri_clash_on_same_marshaled_representation_def w
      by (simp only: g sum.case length_map ne not_False_eq_True if_True tabulated_clashes)
  qed
qed


end
